theory Spec2Isabelle
  imports Complex_Main "HOL-Library.Multiset"
begin

section \<open>Exceptions and library operations\<close>

text \<open>
  Python floats are modelled as real numbers: finite, non-NaN floats with exact
  arithmetic. Every exception the sources can raise is a value of \<open>error\<close>. A method
  returns its outcome together with the object as it is after the call, so that a call
  that raises half-way shows what it had already written.
\<close>

datatype error =
    ValueError | KeyError | TypeError | AttributeError | AssertionError
  | IndexError | ZeroDivisionError | ValidationError

text \<open>\<open>bisect.bisect\<close> (\<open>bisect_right\<close>): the loop of the standard library, as written there.\<close>

function bisect_loop :: "real list \<Rightarrow> real \<Rightarrow> nat \<Rightarrow> nat \<Rightarrow> nat" where
  "bisect_loop a x lo hi =
     (if lo < hi then
        (let mid = (lo + hi) div 2 in
         if x < a ! mid then bisect_loop a x lo mid
         else bisect_loop a x (mid + 1) hi)
      else lo)"
  by pat_completeness auto
termination
  by (relation "measure (\<lambda>(a, x, lo, hi). hi - lo)") auto

definition bisect :: "real list \<Rightarrow> real \<Rightarrow> nat" where
  "bisect a x = bisect_loop a x 0 (length a)"

text \<open>
  Subscripting a sequence of length \<open>n\<close> with an integer: \<open>0 .. n - 1\<close> reads from the
  front, \<open>- n .. - 1\<close> reads from the back, anything else raises \<open>IndexError\<close>.
\<close>

definition getitem :: "'a list \<Rightarrow> int \<Rightarrow> error + 'a" where
  "getitem xs i =
     (if 0 \<le> i \<and> i < int (length xs) then Inr (xs ! nat i)
      else if - int (length xs) \<le> i \<and> i < 0 then Inr (xs ! nat (int (length xs) + i))
      else Inl IndexError)"

text \<open>\<open>list.insert(i, x)\<close> for \<open>i \<ge> 0\<close>: an index past the end appends.\<close>

definition list_insert :: "nat \<Rightarrow> 'a \<Rightarrow> 'a list \<Rightarrow> 'a list" where
  "list_insert i x xs = take i xs @ x # drop i xs"

definition bindE :: "error + 'a \<Rightarrow> ('a \<Rightarrow> error + 'b) \<Rightarrow> error + 'b" where
  "bindE r f = (case r of Inl e \<Rightarrow> Inl e | Inr v \<Rightarrow> f v)"

section \<open>Interval-indexed timeline lookup (\<open>TimelineMixin\<close>)\<close>

text \<open>
  Modelled from the spec: the class \<open>TimelineMixin\<close> that \<open>commentary.py\<close> imports from
  \<open>..layer.mixin\<close> is not among the sources. Its state, after section 3 of the
  specification: the interval starts, the interval ends, and a cache holding the most
  recent query time with the index resolved for it.
\<close>

record timeline =
  start_times :: "real list"
  end_times :: "real list"
  cache :: "(real \<times> int) option"

text \<open>
  Modelled from the spec: the constructor of \<open>TimelineMixin\<close>, which is not among the
  sources. Mismatched lengths fail with \<open>ValidationError\<close>; the cache starts empty.
\<close>

definition make_timeline :: "real list \<Rightarrow> real list \<Rightarrow> error + timeline" where
  "make_timeline ss es =
     (if length ss \<noteq> length es then Inl ValidationError
      else Inr \<lparr>start_times = ss, end_times = es, cache = None\<rparr>)"

text \<open>
  Modelled from the spec: the lookup algorithm of \<open>TimelineMixin\<close>, which is not among the
  sources (section 4.1): a binary search over \<open>start_times\<close> finds the candidate, the
  interval just before the insertion point of \<open>time\<close> (on sorted starts, the last interval
  whose start is not after \<open>time\<close>); the candidate is checked against its own \<open>end_time\<close>;
  when it does not contain \<open>time\<close> the result is \<open>-1\<close>, with no linear scan.
\<close>

definition candidate_lookup :: "real list \<Rightarrow> real list \<Rightarrow> real \<Rightarrow> int" where
  "candidate_lookup ss es t =
     (let idx = int (bisect ss t) - 1
      in if 0 \<le> idx \<and> ss ! nat idx \<le> t \<and> t < es ! nat idx then idx else - 1)"

text \<open>
  Modelled from the spec: \<open>resolve\<close> of \<open>TimelineMixin\<close>, which is not among the sources:
  a query at the cached time returns the cached index; any other query runs the lookup
  and stores its result.
\<close>

definition resolve :: "'z timeline_scheme \<Rightarrow> real \<Rightarrow> int \<times> 'z timeline_scheme" where
  "resolve tline t =
     (case cache tline of
        Some (t', i) \<Rightarrow>
          if t' = t then (i, tline)
          else (let j = candidate_lookup (start_times tline) (end_times tline) t
                in (j, tline\<lparr>cache := Some (t, j)\<rparr>))
      | None \<Rightarrow>
          (let j = candidate_lookup (start_times tline) (end_times tline) t
           in (j, tline\<lparr>cache := Some (t, j)\<rparr>)))"

text \<open>A timeline after a sequence of earlier queries.\<close>

fun queried :: "'z timeline_scheme \<Rightarrow> real list \<Rightarrow> 'z timeline_scheme" where
  "queried tline [] = tline"
| "queried tline (q # qs) = queried (snd (resolve tline q)) qs"

text \<open>
  The contract of \<open>resolve\<close> in the words of the specification: the 0-based index of the
  first interval, in input order, with \<open>start \<le> time < end\<close>, and \<open>-1\<close> when there is none.
\<close>

fun first_containing_from :: "int \<Rightarrow> real list \<Rightarrow> real list \<Rightarrow> real \<Rightarrow> int" where
  "first_containing_from i (s # ss) (e # es) t =
     (if s \<le> t \<and> t < e then i else first_containing_from (i + 1) ss es t)"
| "first_containing_from i ss es t = - 1"

definition first_containing :: "real list \<Rightarrow> real list \<Rightarrow> real \<Rightarrow> int" where
  "first_containing ss es t = first_containing_from 0 ss es t"

text \<open>
  Sorted, non-overlapping intervals: equally many starts and ends, every interval ends
  after it starts, and no interval starts before the one before it has ended.
\<close>

fun sorted_disjoint :: "real list \<Rightarrow> real list \<Rightarrow> bool" where
  "sorted_disjoint [] [] = True"
| "sorted_disjoint [s] [e] = (s < e)"
| "sorted_disjoint (s # s' # ss) (e # es) = (s < e \<and> e \<le> s' \<and> sorted_disjoint (s' # ss) es)"
| "sorted_disjoint ss es = False"

definition cache_ok :: "'z timeline_scheme \<Rightarrow> bool" where
  "cache_ok tline \<longleftrightarrow>
     (case cache tline of
        None \<Rightarrow> True
      | Some (t, i) \<Rightarrow> i = candidate_lookup (start_times tline) (end_times tline) t)"

section \<open>Character eye state (src/movis/contrib/commentary.py)\<close>

text \<open>
  An entry of \<open>character_imgs\<close> or of an \<open>eye_imgs\<close> list: a path not yet opened, or the
  decoded array that \<open>__call__\<close> stores in its place.
\<close>

datatype 'a img = OnDisk string | Loaded 'a

text \<open>
  The state of a \<open>Character\<close>: the fields of \<open>TimelineMixin\<close>, which it inherits, and the
  attributes set by \<open>__init__\<close>.
\<close>

record 'a character = timeline +
  character_name :: string
  character_imgs :: "string \<rightharpoonup> 'a img"
  eye_imgs :: "string \<rightharpoonup> 'a img list"
  character_timeline :: "string list"
  blink_per_minute :: int
  blink_duration :: real

text \<open>\<open>str\<close> of an integer, as an f-string prints it: decimal digits, a minus sign first.\<close>

fun str_nat :: "nat \<Rightarrow> string" where
  "str_nat n =
     (if n < 10 then [char_of (48 + n)]
      else str_nat (n div 10) @ [char_of (48 + n mod 10)])"

definition str_int :: "int \<Rightarrow> string" where
  "str_int i = (if i < 0 then CHR ''-'' # str_nat (nat (- i)) else str_nat (nat i))"

text \<open>\<open>int\<close> of a float: the fractional part is dropped, towards zero.\<close>

definition int_of_float :: "real \<Rightarrow> int" where
  "int_of_float x = (if 0 \<le> x then \<lfloor>x\<rfloor> else \<lceil>x\<rceil>)"

text \<open>
  The nested function of lines 100 to 104. \<open>hashlib\<close> and \<open>numpy\<close> are libraries, taken as
  parameters: \<open>sha224_u32 s\<close> is the first element of the SHA-224 digest of \<open>s\<close> viewed as
  unsigned 32-bit integers, and \<open>rand_state x\<close> is the first draw of a fresh
  \<open>RandomState\<close> seeded with \<open>x\<close>. The seed prefix is added at line 101 and again
  inside the hashed f-string of line 102.
\<close>

definition rand_from_string :: "(string \<Rightarrow> nat) \<Rightarrow> (nat \<Rightarrow> real) \<Rightarrow> string \<Rightarrow> int \<Rightarrow> real" where
  "rand_from_string sha224_u32 rand_state string seed =
     (let string1 = str_int seed @ '':'' @ string;
          x = sha224_u32 (str_int seed @ '':'' @ string1)
      in rand_state x)"

text \<open>
  Lines 106 to 120. The float division of line 112 raises when \<open>blink_duration\<close> is zero;
  the divisor of line 115 is not zero there, the list having passed the test of line 109.
\<close>

definition get_eye_state ::
  "(string \<Rightarrow> nat) \<Rightarrow> (nat \<Rightarrow> real) \<Rightarrow> 'a character \<Rightarrow> real \<Rightarrow> int \<Rightarrow>
   (error + int) \<times> 'a character" where
  "get_eye_state sha224_u32 rand_state self time idx =
     (case getitem (character_timeline self) idx of
        Inl e \<Rightarrow> (Inl e, self)
      | Inr emotion \<Rightarrow>
          (case eye_imgs self emotion of
             None \<Rightarrow> (Inr (- 1), self)
           | Some eyes \<Rightarrow>
               if length eyes = 1 then (Inr 0, self)
               else
                 (let p_threshold =
                        real_of_int (blink_per_minute self) * blink_duration self / 60
                  in if blink_duration self = 0 then (Inl ZeroDivisionError, self)
                     else
                       (let n = int_of_float (time / blink_duration self);
                            p = rand_from_string sha224_u32 rand_state
                                  (character_name self @ '':'' @ str_int n) 0
                        in if p < p_threshold then
                             (let frame_duration =
                                    blink_duration self / real_of_int (int (length eyes) - 1);
                                  t1 = time - real_of_int n * blink_duration self;
                                  n1 = int_of_float (t1 / frame_duration)
                              in (Inr (min (n1 + 1) (int (length eyes) - 1)), self))
                           else (Inr 0, self)))))"

text \<open>Item assignment \<open>xs[i] = v\<close> at an index that \<open>xs[i]\<close> has just read.\<close>

definition setitem :: "'a list \<Rightarrow> int \<Rightarrow> 'a \<Rightarrow> 'a list" where
  "setitem xs i v = (if i < 0 then xs[nat (int (length xs) + i) := v] else xs[nat i := v])"

text \<open>
  Lines 122 to 128, \<open>get_key\<close>. \<open>get_state\<close> is \<open>resolve\<close> of the inherited
  \<open>TimelineMixin\<close>.
\<close>

definition get_key ::
  "(string \<Rightarrow> nat) \<Rightarrow> (nat \<Rightarrow> real) \<Rightarrow> 'a character \<Rightarrow> real \<Rightarrow>
   (error + string \<times> int) \<times> 'a character" where
  "get_key sha224_u32 rand_state self time =
     (let r = resolve self time; idx = fst r; s1 = snd r
      in if idx < 0 then (Inr ('''', - 1), s1)
         else
           (case getitem (character_timeline s1) idx of
              Inl e \<Rightarrow> (Inl e, s1)
            | Inr emotion \<Rightarrow>
                (case fst (get_eye_state sha224_u32 rand_state s1 time idx) of
                   Inl e \<Rightarrow> (Inl e, s1)
                 | Inr eye \<Rightarrow> (Inr (emotion, eye), s1))))"

text \<open>
  Lines 130 to 151, \<open>__call__\<close>. Opening and converting an image file (\<open>decode\<close>) and
  \<open>alpha_composite\<close> are outside the sources and taken as parameters. The decoded base
  image replaces the path in \<open>character_imgs\<close> (line 138), the decoded eye image replaces
  the path in the \<open>eye_imgs\<close> list (line 147).
\<close>

definition character_call ::
  "(string \<Rightarrow> nat) \<Rightarrow> (nat \<Rightarrow> real) \<Rightarrow> (string \<Rightarrow> 'a) \<Rightarrow> ('a \<Rightarrow> 'a \<Rightarrow> 'a) \<Rightarrow>
   'a character \<Rightarrow> real \<Rightarrow> (error + 'a option) \<times> 'a character" where
  "character_call sha224_u32 rand_state decode alpha_composite self time =
     (let r = resolve self time; idx = fst r; s1 = snd r
      in if idx < 0 then (Inr None, s1)
         else
           (case getitem (character_timeline s1) idx of
              Inl e \<Rightarrow> (Inl e, s1)
            | Inr emotion \<Rightarrow>
                (case character_imgs s1 emotion of
                   None \<Rightarrow> (Inl KeyError, s1)
                 | Some character \<Rightarrow>
                     (let base_img = (case character of OnDisk path \<Rightarrow> decode path | Loaded a \<Rightarrow> a);
                          s2 = (case character of
                                  OnDisk path \<Rightarrow>
                                    s1\<lparr>character_imgs :=
                                         (character_imgs s1)(emotion \<mapsto> Loaded base_img)\<rparr>
                                | Loaded a \<Rightarrow> s1)
                      in case eye_imgs s2 emotion of
                           None \<Rightarrow> (Inr (Some base_img), s2)
                         | Some eyes \<Rightarrow>
                             (case fst (get_eye_state sha224_u32 rand_state s2 time idx) of
                                Inl e \<Rightarrow> (Inl e, s2)
                              | Inr eye_number \<Rightarrow>
                                  (case getitem eyes eye_number of
                                     Inl e \<Rightarrow> (Inl e, s2)
                                   | Inr eye \<Rightarrow>
                                       (let eye_img = (case eye of OnDisk path \<Rightarrow> decode path
                                                        | Loaded a \<Rightarrow> a);
                                            s3 = (case eye of
                                                    OnDisk path \<Rightarrow>
                                                      s2\<lparr>eye_imgs :=
                                                           (eye_imgs s2)(emotion \<mapsto>
                                                              setitem eyes eye_number
                                                                (Loaded eye_img))\<rparr>
                                                  | Loaded a \<Rightarrow> s2)
                                        in (Inr (Some (alpha_composite base_img eye_img)),
                                            s3))))))))"

text \<open>
  A call history: any sequence of the three methods, each at any arguments; a call that
  raises leaves the object as it was at the raise, and the history goes on.
\<close>

datatype method_call = Call real | GetKey real | GetEyeState real int

fun after_call ::
  "(string \<Rightarrow> nat) \<Rightarrow> (nat \<Rightarrow> real) \<Rightarrow> (string \<Rightarrow> 'a) \<Rightarrow> ('a \<Rightarrow> 'a \<Rightarrow> 'a) \<Rightarrow>
   'a character \<Rightarrow> method_call \<Rightarrow> 'a character" where
  "after_call h r d c self (Call time) = snd (character_call h r d c self time)"
| "after_call h r d c self (GetKey time) = snd (get_key h r self time)"
| "after_call h r d c self (GetEyeState time idx) = snd (get_eye_state h r self time idx)"

fun after_calls ::
  "(string \<Rightarrow> nat) \<Rightarrow> (nat \<Rightarrow> real) \<Rightarrow> (string \<Rightarrow> 'a) \<Rightarrow> ('a \<Rightarrow> 'a \<Rightarrow> 'a) \<Rightarrow>
   'a character \<Rightarrow> method_call list \<Rightarrow> 'a character" where
  "after_calls h r d c self [] = self"
| "after_calls h r d c self (m # ms) = after_calls h r d c (after_call h r d c self m) ms"

text \<open>What \<open>get_eye_state\<close> reads of the object.\<close>

definition eye_view ::
  "'a character \<Rightarrow> string \<times> string list \<times> int \<times> real \<times> (string \<Rightarrow> nat option)" where
  "eye_view self =
     (character_name self, character_timeline self, blink_per_minute self,
      blink_duration self, \<lambda>emotion. map_option length (eye_imgs self emotion))"

section \<open>Keyframe motion curves (src/zunda/motion.py)\<close>

text \<open>The type variable \<open>T\<close> of the source: a float or a 2-tuple of floats.\<close>

datatype val = Scalar real | Pair real real

text \<open>
  The eight lambdas of the registry \<open>motion_types_to_func\<close>. Two entries of
  \<open>self.motion_types\<close> are the same Python object exactly when they were looked up
  under the same name, so a function is identified by its constructor.
\<close>

datatype easing =
    Linear | EaseIn | EaseOut | EaseInOut
  | EaseInCubic | EaseOutCubic | EaseInExpo | EaseOutExpo

definition motion_types_to_func :: "string \<Rightarrow> easing option" where
  "motion_types_to_func name =
     (if name = ''linear'' then Some Linear
      else if name = ''ease_in'' then Some EaseIn
      else if name = ''ease_out'' then Some EaseOut
      else if name = ''ease_in_out'' then Some EaseInOut
      else if name = ''ease_in_cubic'' then Some EaseInCubic
      else if name = ''ease_out_cubic'' then Some EaseOutCubic
      else if name = ''ease_in_expo'' then Some EaseInExpo
      else if name = ''ease_out_expo'' then Some EaseOutExpo
      else None)"

fun ease :: "easing \<Rightarrow> real \<Rightarrow> real" where
  "ease Linear t = t"
| "ease EaseIn t = t ^ 2"
| "ease EaseOut t = 1 - (1 - t) ^ 2"
| "ease EaseInOut t = t ^ 2 * (3 - 2 * t)"
| "ease EaseInCubic t = t ^ 3"
| "ease EaseOutCubic t = 1 - (1 - t) ^ 3"
| "ease EaseInExpo t = exp (- 10 * (1 - t))"
| "ease EaseOutExpo t = 1 - exp (- 10 * t)"

text \<open>
  The object state. \<open>values_seq\<close> is the attribute \<open>values\<close>. \<open>frozen\<close> records whether
  the three sequences are Python tuples (after \<open>extend\<close>) rather than lists (after
  \<open>__init__\<close>): the three attributes are always rebound together.
\<close>

record motion =
  keyframes :: "real list"
  values_seq :: "val list"
  motion_types :: "easing list"
  default_value :: "val option"
  frozen :: bool

definition Motion :: "val option \<Rightarrow> motion" where
  "Motion dv = \<lparr>keyframes = [], values_seq = [], motion_types = [],
                default_value = dv, frozen = False\<rparr>"

subsection \<open>\<open>Motion.__call__\<close>\<close>

text \<open>Lines 45 to 50: the dispatch on the shape of the two bracketing values.\<close>

fun interpolate :: "val \<Rightarrow> val \<Rightarrow> real \<Rightarrow> error + val" where
  "interpolate (Scalar m) (Scalar M) t = Inr (Scalar (m + (M - m) * t))"
| "interpolate (Pair m0 m1) (Pair M0 M1) t =
     Inr (Pair (m0 + (M0 - m0) * t) (m1 + (M1 - m1) * t))"
| "interpolate m M t = Inl ValueError"

definition evaluate :: "motion \<Rightarrow> real \<Rightarrow> error + val" where
  "evaluate self layer_time =
     (if length (keyframes self) = 0 then
        (case default_value self of Some d \<Rightarrow> Inr d | None \<Rightarrow> Inl ValueError)
      else if length (keyframes self) = 1 then getitem (values_seq self) 0
      else
        bindE (getitem (keyframes self) 0) (\<lambda>k0.
        if layer_time < k0 then getitem (values_seq self) 0
        else
          bindE (getitem (keyframes self) (- 1)) (\<lambda>kl.
          if kl \<le> layer_time then getitem (values_seq self) (- 1)
          else
            (let i = int (bisect (keyframes self) layer_time) in
             bindE (getitem (values_seq self) (i - 1)) (\<lambda>m.
             bindE (getitem (values_seq self) i) (\<lambda>M.
             bindE (getitem (keyframes self) i) (\<lambda>ki.
             bindE (getitem (keyframes self) (i - 1)) (\<lambda>kp.
             (let duration = ki - kp in
              bindE (getitem (keyframes self) (i - 1)) (\<lambda>kp'.
              if duration = 0 then Inl ZeroDivisionError
              else
                (let t = (layer_time - kp') / duration in
                 bindE (getitem (motion_types self) (i - 1)) (\<lambda>f.
                 interpolate m M (ease f t)))))))))))))"

text \<open>The method reads \<open>self\<close> and assigns nothing: the object after the call is the one before.\<close>

definition motion_call :: "motion \<Rightarrow> real \<Rightarrow> (error + val) \<times> motion" where
  "motion_call self layer_time = (evaluate self layer_time, self)"

subsection \<open>\<open>Motion._cast\<close>, \<open>Motion.append\<close>\<close>

fun cast :: "val \<Rightarrow> val" where
  "cast (Pair v0 v1) = Pair v0 v1"
| "cast (Scalar v) = Scalar v"

text \<open>
  Lines 59 to 63, statement by statement. On a tuple the attribute \<open>insert\<close> does not
  exist, so line 60 raises before anything is written. The registry lookup of line 62
  happens after lines 60 and 61 have inserted into \<open>keyframes\<close> and \<open>values\<close>.
\<close>

definition append :: "motion \<Rightarrow> real \<Rightarrow> val \<Rightarrow> string \<Rightarrow> (error + unit) \<times> motion" where
  "append self keyframe v motion_type =
     (let i = bisect (keyframes self) keyframe in
      if frozen self then (Inl AttributeError, self)
      else
        (let s1 = self\<lparr>keyframes := list_insert i keyframe (keyframes self)\<rparr>;
             s2 = s1\<lparr>values_seq := list_insert i (cast v) (values_seq s1)\<rparr>
         in case motion_types_to_func motion_type of
              None \<Rightarrow> (Inl KeyError, s2)
            | Some f \<Rightarrow>
                (Inr (), s2\<lparr>motion_types := list_insert i f (motion_types s2)\<rparr>)))"

subsection \<open>\<open>Motion.extend\<close>\<close>

text \<open>
  \<open>sorted\<close> compares the zipped 3-tuples \<open>(keyframe, value, function)\<close> with \<open><\<close>. A tuple
  comparison looks for the first position where the two differ (by \<open>==\<close>) and compares
  there: floats by \<open><\<close>, two 2-tuples lexicographically; a float against a tuple and one
  function against another raise \<open>TypeError\<close>. Tuples equal at every position are not
  less than each other.
\<close>

type_synonym triple = "real \<times> val \<times> easing"

fun lt_val :: "val \<Rightarrow> val \<Rightarrow> error + bool" where
  "lt_val (Scalar a) (Scalar b) = Inr (a < b)"
| "lt_val (Pair a0 a1) (Pair b0 b1) = Inr (if a0 \<noteq> b0 then a0 < b0 else a1 < b1)"
| "lt_val a b = Inl TypeError"

fun lt_triple :: "triple \<Rightarrow> triple \<Rightarrow> error + bool" where
  "lt_triple (k1, v1, f1) (k2, v2, f2) =
     (if k1 \<noteq> k2 then Inr (k1 < k2)
      else if v1 \<noteq> v2 then lt_val v1 v2
      else if f1 \<noteq> f2 then Inl TypeError
      else Inr False)"

text \<open>
  The list sort, run as a stable insertion sort on \<open>lt_triple\<close>: an element moves past
  those strictly less than it, and a comparison that raises ends the sort. Two triples
  of which neither is less are equal in every field, so wherever all the comparisons
  succeed the sorted sequence is the one any correct sort returns. CPython's sort may
  test other pairs than this one does; the two can differ only in whether a
  \<open>TypeError\<close> surfaces on an input that holds an incomparable pair.
\<close>

fun insort_py :: "triple \<Rightarrow> triple list \<Rightarrow> error + triple list" where
  "insort_py x [] = Inr [x]"
| "insort_py x (y # ys) =
     (case lt_triple y x of
        Inl e \<Rightarrow> Inl e
      | Inr True \<Rightarrow> (case insort_py x ys of Inl e \<Rightarrow> Inl e | Inr zs \<Rightarrow> Inr (y # zs))
      | Inr False \<Rightarrow> Inr (x # y # ys))"

fun sorted_py :: "triple list \<Rightarrow> error + triple list" where
  "sorted_py [] = Inr []"
| "sorted_py (x # xs) =
     (case sorted_py xs of Inl e \<Rightarrow> Inl e | Inr ys \<Rightarrow> insort_py x ys)"

text \<open>\<open>zip\<close> of three sequences stops at the shortest.\<close>

definition zip3 :: "real list \<Rightarrow> val list \<Rightarrow> easing list \<Rightarrow> triple list" where
  "zip3 ks vs fs = zip ks (zip vs fs)"

text \<open>The comprehension of line 72: the first unregistered name raises \<open>KeyError\<close>.\<close>

fun lookup_all :: "string list \<Rightarrow> error + easing list" where
  "lookup_all [] = Inr []"
| "lookup_all (t # ts) =
     (case motion_types_to_func t of
        None \<Rightarrow> Inl KeyError
      | Some f \<Rightarrow> (case lookup_all ts of Inl e \<Rightarrow> Inl e | Inr fs \<Rightarrow> Inr (f # fs)))"

text \<open>
  Lines 66 to 78. Line 70 concatenates \<open>self.keyframes\<close> with a list, which raises
  \<open>TypeError\<close> when it is a tuple. Line 74 unpacks \<open>zip(*zipped)\<close> into three names,
  which raises \<open>ValueError\<close> when \<open>zipped\<close> is empty. Nothing is assigned to \<open>self\<close>
  before line 75, and lines 75 to 77 rebind the three attributes to tuples.
\<close>

definition extend ::
  "motion \<Rightarrow> real list \<Rightarrow> val list \<Rightarrow> string list option \<Rightarrow> (error + unit) \<times> motion" where
  "extend self ks vs mts =
     (if length ks \<noteq> length vs then (Inl AssertionError, self)
      else if (case mts of None \<Rightarrow> False | Some ns \<Rightarrow> length ks \<noteq> length ns)
        then (Inl AssertionError, self)
      else
        (let names = (case mts of None \<Rightarrow> replicate (length ks) ''linear'' | Some ns \<Rightarrow> ns) in
         if frozen self then (Inl TypeError, self)
         else
           (let keyframes' = keyframes self @ ks;
                values' = values_seq self @ map cast vs
            in case lookup_all names of
                 Inl e \<Rightarrow> (Inl e, self)
               | Inr fs \<Rightarrow>
                   (let motion_types' = motion_types self @ fs in
                    case sorted_py (zip3 keyframes' values' motion_types') of
                      Inl e \<Rightarrow> (Inl e, self)
                    | Inr zipped \<Rightarrow>
                        if zipped = [] then (Inl ValueError, self)
                        else
                          (Inr (),
                           self\<lparr>keyframes := map fst zipped,
                                values_seq := map (\<lambda>z. fst (snd z)) zipped,
                                motion_types := map (\<lambda>z. snd (snd z)) zipped,
                                frozen := True\<rparr>)))))"

text \<open>The class invariant of the data model: keyframes ascending, the three sequences aligned.\<close>

definition aligned_sorted :: "motion \<Rightarrow> bool" where
  "aligned_sorted self \<longleftrightarrow>
     sorted (keyframes self) \<and>
     length (values_seq self) = length (keyframes self) \<and>
     length (motion_types self) = length (keyframes self)"

text \<open>
  A curve built by one \<open>append\<close> call per keyframe \<open>(time, value, easing name)\<close>, in the
  order given; an exception ends the construction.
\<close>

fun appends :: "motion \<Rightarrow> (real \<times> val \<times> string) list \<Rightarrow> (error + unit) \<times> motion" where
  "appends self [] = (Inr (), self)"
| "appends self ((k, v, name) # rest) =
     (case append self k v name of
        (Inl e, s) \<Rightarrow> (Inl e, s)
      | (Inr u, s) \<Rightarrow> appends s rest)"

text \<open>The stored triple of a keyframe whose easing name is registered.\<close>

definition stored :: "real \<times> val \<times> string \<Rightarrow> triple" where
  "stored x = (fst x, cast (fst (snd x)), the (motion_types_to_func (snd (snd x))))"

definition registered :: "(real \<times> val \<times> string) list \<Rightarrow> bool" where
  "registered ts \<longleftrightarrow> (\<forall>x\<in>set ts. motion_types_to_func (snd (snd x)) \<noteq> None)"

definition triples_of :: "motion \<Rightarrow> triple list" where
  "triples_of self = zip3 (keyframes self) (values_seq self) (motion_types self)"

section \<open>Properties of the library operations\<close>

lemma bisect_loop_bounds:
  "lo \<le> hi \<Longrightarrow> lo \<le> bisect_loop a x lo hi \<and> bisect_loop a x lo hi \<le> hi"
proof (induction a x lo hi rule: bisect_loop.induct)
  case (1 a x lo hi)
  show ?case
  proof (cases "lo < hi")
    case False
    with "1.prems" show ?thesis by simp
  next
    case True
    define mid where "mid = (lo + hi) div 2"
    have m: "lo \<le> mid" "mid < hi" using True by (simp_all add: mid_def)
    show ?thesis
    proof (cases "x < a ! mid")
      case True
      have "lo \<le> bisect_loop a x lo mid \<and> bisect_loop a x lo mid \<le> mid"
        using "1.IH"(1)[OF \<open>lo < hi\<close> mid_def[symmetric, THEN sym] True] m by simp
      then show ?thesis using \<open>lo < hi\<close> True m
        by (subst bisect_loop.simps) (simp add: mid_def Let_def)
    next
      case False
      have "mid + 1 \<le> bisect_loop a x (mid + 1) hi \<and> bisect_loop a x (mid + 1) hi \<le> hi"
        using "1.IH"(2)[OF \<open>lo < hi\<close> mid_def[symmetric, THEN sym] False] m by simp
      then show ?thesis using \<open>lo < hi\<close> False m
        by (subst bisect_loop.simps) (simp add: mid_def Let_def)
    qed
  qed
qed

lemma bisect_loop_part:
  assumes "sorted a" "lo \<le> hi" "hi \<le> length a"
    "\<forall>j<lo. a ! j \<le> x" "\<forall>j. hi \<le> j \<and> j < length a \<longrightarrow> x < a ! j"
  shows "(\<forall>j<bisect_loop a x lo hi. a ! j \<le> x) \<and>
         (\<forall>j. bisect_loop a x lo hi \<le> j \<and> j < length a \<longrightarrow> x < a ! j)"
  using assms
proof (induction a x lo hi rule: bisect_loop.induct)
  case (1 a x lo hi)
  show ?case
  proof (cases "lo < hi")
    case False
    then have "bisect_loop a x lo hi = lo" by (subst bisect_loop.simps) simp
    moreover have "lo = hi" using False "1.prems"(2) by simp
    ultimately show ?thesis using "1.prems"(4,5) by simp
  next
    case lt: True
    define mid where "mid = (lo + hi) div 2"
    have m: "lo \<le> mid" "mid < hi" "mid < length a" using lt "1.prems"(3) by (simp_all add: mid_def)
    show ?thesis
    proof (cases "x < a ! mid")
      case True
      have up: "\<forall>j. mid \<le> j \<and> j < length a \<longrightarrow> x < a ! j"
      proof (intro allI impI)
        fix j assume "mid \<le> j \<and> j < length a"
        then have "a ! mid \<le> a ! j" using \<open>sorted a\<close> by (simp add: sorted_nth_mono)
        with True show "x < a ! j" by simp
      qed
      have r: "bisect_loop a x lo hi = bisect_loop a x lo mid"
        using lt True by (subst bisect_loop.simps) (simp add: mid_def Let_def)
      have "mid \<le> length a" using m by simp
      from "1.IH"(1)[OF lt mid_def[symmetric, THEN sym] True \<open>sorted a\<close> m(1) this "1.prems"(4) up]
      show ?thesis unfolding r .
    next
      case False
      have dn: "\<forall>j<mid + 1. a ! j \<le> x"
      proof (intro allI impI)
        fix j assume "j < mid + 1"
        then have "a ! j \<le> a ! mid" using \<open>sorted a\<close> m by (simp add: sorted_nth_mono)
        with False show "a ! j \<le> x" by simp
      qed
      have r: "bisect_loop a x lo hi = bisect_loop a x (mid + 1) hi"
        using lt False by (subst bisect_loop.simps) (simp add: mid_def Let_def)
      have "mid + 1 \<le> hi" using m by simp
      from "1.IH"(2)[OF lt mid_def[symmetric, THEN sym] False \<open>sorted a\<close> this "1.prems"(3) dn "1.prems"(5)]
      show ?thesis unfolding r .
    qed
  qed
qed

lemma bisect_le_length: "bisect a x \<le> length a"
  using bisect_loop_bounds[of 0 "length a" a x] by (simp add: bisect_def)

lemma bisect_sorted:
  assumes "sorted a"
  shows "\<forall>j<bisect a x. a ! j \<le> x"
    and "\<forall>j. bisect a x \<le> j \<and> j < length a \<longrightarrow> x < a ! j"
  using bisect_loop_part[OF assms, of 0 "length a" x] by (simp_all add: bisect_def)

lemma sorted_list_insert:
  assumes "sorted a"
  shows "sorted (list_insert (bisect a x) x a)"
proof -
  let ?i = "bisect a x"
  have le: "?i \<le> length a" by (rule bisect_le_length)
  have lo: "\<forall>p\<in>set (take ?i a). p \<le> x"
  proof
    fix p assume "p \<in> set (take ?i a)"
    then obtain j where "j < length (take ?i a)" "take ?i a ! j = p"
      by (auto simp: in_set_conv_nth)
    then have "j < ?i" "a ! j = p" by simp_all
    with bisect_sorted(1)[OF assms, of x] show "p \<le> x" by auto
  qed
  have hi: "\<forall>q\<in>set (drop ?i a). x < q"
  proof
    fix q assume "q \<in> set (drop ?i a)"
    then obtain j where j: "j < length (drop ?i a)" "drop ?i a ! j = q"
      by (auto simp: in_set_conv_nth)
    then have "?i + j < length a" "a ! (?i + j) = q" using le by simp_all
    with bisect_sorted(2)[OF assms, of x] show "x < q" by (metis le_add1)
  qed
  have "sorted (take ?i a)" "sorted (drop ?i a)"
    using assms by (simp_all add: sorted_wrt_take sorted_wrt_drop)
  moreover have "\<forall>p\<in>set (take ?i a). \<forall>q\<in>set (drop ?i a). p \<le> q"
    using lo hi by fastforce
  moreover have "\<forall>q\<in>set (drop ?i a). x \<le> q" using hi by fastforce
  ultimately show ?thesis
    unfolding list_insert_def using lo by (simp add: sorted_append)
qed

lemma length_list_insert: "length (list_insert i x xs) = Suc (length xs)"
  by (simp add: list_insert_def)

lemma lt_triple_True: "lt_triple y x = Inr True \<Longrightarrow> fst y \<le> fst x"
  by (cases y; cases x) (auto split: if_splits)

lemma lt_triple_False: "lt_triple y x = Inr False \<Longrightarrow> fst x \<le> fst y"
  by (cases y; cases x) (auto split: if_splits)

lemma insort_py_cases:
  assumes "insort_py x (y # ys) = Inr zs"
  shows "(lt_triple y x = Inr True \<and> (\<exists>ws. insort_py x ys = Inr ws \<and> zs = y # ws)) \<or>
         (lt_triple y x = Inr False \<and> zs = x # y # ys)"
proof (cases "lt_triple y x")
  case (Inl e)
  with assms show ?thesis by simp
next
  case (Inr b)
  show ?thesis
  proof (cases b)
    case True
    with Inr assms show ?thesis by (cases "insort_py x ys") simp_all
  next
    case False
    with Inr assms show ?thesis by simp
  qed
qed

lemma insort_py_set: "insort_py x ys = Inr zs \<Longrightarrow> set zs = insert x (set ys)"
proof (induction ys arbitrary: zs)
  case Nil
  then show ?case by auto
next
  case (Cons y ys)
  from insort_py_cases[OF Cons.prems] show ?case
  proof
    assume "lt_triple y x = Inr True \<and> (\<exists>ws. insort_py x ys = Inr ws \<and> zs = y # ws)"
    then obtain ws where ws: "insort_py x ys = Inr ws" "zs = y # ws" by blast
    from Cons.IH[OF ws(1)] ws(2) show ?thesis by auto
  next
    assume "lt_triple y x = Inr False \<and> zs = x # y # ys"
    then show ?thesis by auto
  qed
qed

lemma insort_py_sorted:
  "insort_py x ys = Inr zs \<Longrightarrow> sorted (map fst ys) \<Longrightarrow> sorted (map fst zs)"
proof (induction ys arbitrary: zs)
  case Nil
  then show ?case by auto
next
  case (Cons y ys)
  from insort_py_cases[OF Cons.prems(1)] show ?case
  proof
    assume "lt_triple y x = Inr True \<and> (\<exists>ws. insort_py x ys = Inr ws \<and> zs = y # ws)"
    then obtain ws where lt: "lt_triple y x = Inr True"
      and ws: "insort_py x ys = Inr ws" "zs = y # ws" by blast
    have "sorted (map fst ws)" using Cons.IH[OF ws(1)] Cons.prems(2) by simp
    moreover have "\<forall>w\<in>set ws. fst y \<le> fst w"
      using insort_py_set[OF ws(1)] lt_triple_True[OF lt] Cons.prems(2) by auto
    ultimately show ?thesis using ws(2) by simp
  next
    assume "lt_triple y x = Inr False \<and> zs = x # y # ys"
    then have lt: "lt_triple y x = Inr False" and zs: "zs = x # y # ys" by simp_all
    have "fst x \<le> fst y" using lt_triple_False[OF lt] .
    then show ?thesis using zs Cons.prems(2) by auto
  qed
qed

lemma sorted_py_sorted: "sorted_py xs = Inr zs \<Longrightarrow> sorted (map fst zs)"
proof (induction xs arbitrary: zs)
  case Nil
  then show ?case by simp
next
  case (Cons x xs)
  then obtain ys where ys: "sorted_py xs = Inr ys" "insort_py x ys = Inr zs"
    by (auto split: sum.splits)
  from insort_py_sorted[OF ys(2) Cons.IH[OF ys(1)]] show ?case .
qed

lemma sorted_py_set: "sorted_py xs = Inr zs \<Longrightarrow> set zs = set xs"
proof (induction xs arbitrary: zs)
  case Nil
  then show ?case by simp
next
  case (Cons x xs)
  then obtain ys where ys: "sorted_py xs = Inr ys" "insort_py x ys = Inr zs"
    by (auto split: sum.splits)
  show ?case using insort_py_set[OF ys(2)] Cons.IH[OF ys(1)] by simp
qed

lemma extend_success:
  assumes "extend self ks vs mts = (Inr (), s')"
  shows "\<exists>fs zipped.
           \<not> frozen self \<and> length ks = length vs \<and>
           lookup_all (case mts of None \<Rightarrow> replicate (length ks) ''linear'' | Some ns \<Rightarrow> ns) = Inr fs \<and>
           sorted_py (zip3 (keyframes self @ ks) (values_seq self @ map cast vs)
                           (motion_types self @ fs)) = Inr zipped \<and>
           zipped \<noteq> [] \<and>
           s' = self\<lparr>keyframes := map fst zipped,
                     values_seq := map (\<lambda>z. fst (snd z)) zipped,
                     motion_types := map (\<lambda>z. snd (snd z)) zipped,
                     frozen := True\<rparr>"
proof -
  let ?names = "case mts of None \<Rightarrow> replicate (length ks) ''linear'' | Some ns \<Rightarrow> ns"
  have a1: "length ks = length vs"
    using assms by (cases "length ks = length vs") (simp_all add: extend_def)
  have a2: "\<not> (case mts of None \<Rightarrow> False | Some ns \<Rightarrow> length ks \<noteq> length ns)"
    using assms a1 by (cases "case mts of None \<Rightarrow> False | Some ns \<Rightarrow> length ks \<noteq> length ns")
      (simp_all add: extend_def)
  have a3: "\<not> frozen self"
    using assms a1 a2 by (cases "frozen self") (simp_all add: extend_def Let_def)
  obtain fs where fs: "lookup_all ?names = Inr fs"
    using assms a1 a2 a3 by (cases "lookup_all ?names") (simp_all add: extend_def Let_def)
  let ?z = "zip3 (keyframes self @ ks) (values_seq self @ map cast vs) (motion_types self @ fs)"
  obtain zipped where z: "sorted_py ?z = Inr zipped"
    using assms a1 a2 a3 fs by (cases "sorted_py ?z") (simp_all add: extend_def Let_def)
  have ne: "zipped \<noteq> []"
    using assms a1 a2 a3 fs z by (cases "zipped = []") (simp_all add: extend_def Let_def)
  have "s' = self\<lparr>keyframes := map fst zipped,
                     values_seq := map (\<lambda>z. fst (snd z)) zipped,
                     motion_types := map (\<lambda>z. snd (snd z)) zipped,
                     frozen := True\<rparr>"
    using assms a1 a2 a3 fs z ne by (simp add: extend_def Let_def)
  with a1 a3 fs z ne show ?thesis by blast
qed

lemma append_frozen: "frozen self \<Longrightarrow> append self k v mt = (Inl AttributeError, self)"
  by (simp add: append_def Let_def)

lemma append_success:
  assumes "append self k v mt = (Inr (), s')"
  shows "\<exists>f. \<not> frozen self \<and> motion_types_to_func mt = Some f \<and>
           s' = self\<lparr>keyframes := list_insert (bisect (keyframes self) k) k (keyframes self),
                     values_seq := list_insert (bisect (keyframes self) k) (cast v) (values_seq self),
                     motion_types := list_insert (bisect (keyframes self) k) f (motion_types self)\<rparr>"
proof -
  have a1: "\<not> frozen self"
    using assms by (cases "frozen self") (simp_all add: append_def Let_def)
  obtain f where f: "motion_types_to_func mt = Some f"
    using assms a1 by (cases "motion_types_to_func mt") (simp_all add: append_def Let_def)
  show ?thesis using assms a1 f by (simp add: append_def Let_def)
qed

lemma extend_success_frozen:
  assumes "extend self ks vs mts = (Inr (), s')"
  shows "frozen s'"
  using extend_success[OF assms] by auto

lemma extend_success_invariant:
  assumes "extend self ks vs mts = (Inr (), s')"
  shows "aligned_sorted s'"
proof -
  from extend_success[OF assms] obtain xs zipped where
    z: "sorted_py xs = Inr zipped" and
    s': "s' = self\<lparr>keyframes := map fst zipped,
                values_seq := map (\<lambda>z. fst (snd z)) zipped,
                motion_types := map (\<lambda>z. snd (snd z)) zipped,
                frozen := True\<rparr>"
    by blast
  from z have "sorted (map fst zipped)" by (rule sorted_py_sorted)
  then show ?thesis by (simp add: aligned_sorted_def s')
qed

lemma append_success_invariant:
  assumes "aligned_sorted self" "append self k v mt = (Inr (), s')"
  shows "aligned_sorted s'"
proof -
  from append_success[OF assms(2)] obtain f where
    s': "s' = self\<lparr>keyframes := list_insert (bisect (keyframes self) k) k (keyframes self),
                     values_seq := list_insert (bisect (keyframes self) k) (cast v) (values_seq self),
                     motion_types := list_insert (bisect (keyframes self) k) f (motion_types self)\<rparr>"
    by blast
  have "sorted (list_insert (bisect (keyframes self) k) k (keyframes self))"
    using assms(1) by (simp add: sorted_list_insert aligned_sorted_def)
  then show ?thesis using assms(1) by (simp add: s' aligned_sorted_def length_list_insert)
qed

text \<open>
  C7. Starting from a curve whose keyframes are sorted ascending and whose three sequences
  have equal length, every \<open>append\<close> that returns and every \<open>extend\<close> that returns leaves a
  curve with sorted keyframes and three sequences of equal length.
\<close>

theorem append_extend_preserve_invariant:
  assumes "aligned_sorted self"
  shows "(append self k v mt = (Inr (), s1) \<longrightarrow> aligned_sorted s1) \<and>
         (extend self ks vs mts = (Inr (), s2) \<longrightarrow> aligned_sorted s2)"
  using assms append_success_invariant extend_success_invariant by blast

theorem append_extend_preserve_invariant_witness:
  "aligned_sorted (Motion None) \<and>
   append (Motion None) 2 (Scalar 5) ''ease_in'' =
     (Inr (), \<lparr>keyframes = [2], values_seq = [Scalar 5], motion_types = [EaseIn],
               default_value = None, frozen = False\<rparr>) \<and>
   aligned_sorted \<lparr>keyframes = [2], values_seq = [Scalar 5], motion_types = [EaseIn],
               default_value = None, frozen = False\<rparr> \<and>
   extend (Motion None) [3, 1] [Scalar 30, Scalar 10] None =
     (Inr (), \<lparr>keyframes = [1, 3], values_seq = [Scalar 10, Scalar 30],
               motion_types = [Linear, Linear], default_value = None, frozen = True\<rparr>) \<and>
   aligned_sorted \<lparr>keyframes = [1, 3], values_seq = [Scalar 10, Scalar 30],
               motion_types = [Linear, Linear], default_value = None, frozen = True\<rparr>"
proof -
  have inv: "aligned_sorted (Motion None)"
    by (simp add: aligned_sorted_def Motion_def)
  have a: "append (Motion None) 2 (Scalar 5) ''ease_in'' =
     (Inr (), \<lparr>keyframes = [2], values_seq = [Scalar 5], motion_types = [EaseIn],
               default_value = None, frozen = False\<rparr>)"
    by (simp add: append_def Motion_def bisect_def list_insert_def motion_types_to_func_def)
  have e: "extend (Motion None) [3, 1] [Scalar 30, Scalar 10] None =
     (Inr (), \<lparr>keyframes = [1, 3], values_seq = [Scalar 10, Scalar 30],
               motion_types = [Linear, Linear], default_value = None, frozen = True\<rparr>)"
    by (simp add: extend_def Motion_def zip3_def motion_types_to_func_def numeral_2_eq_2)
  from append_extend_preserve_invariant[OF inv, of 2 "Scalar 5" "''ease_in''" _ "[3, 1]"
      "[Scalar 30, Scalar 10]" None] a e inv
  show ?thesis by simp
qed

text \<open>
  C10. Once \<open>extend\<close> has returned, the three sequences are tuples, and every later
  \<open>append\<close> raises (\<open>AttributeError\<close>: a tuple has no \<open>insert\<close>) whatever keyframe, value
  and easing name it is given; the curve stays as \<open>extend\<close> left it.
\<close>

theorem append_after_extend_fails:
  assumes "extend self ks vs mts = (Inr (), s')"
  shows "append s' k v mt = (Inl AttributeError, s')"
  using extend_success_frozen[OF assms] by (rule append_frozen)

theorem append_after_extend_fails_witness:
  "extend (Motion None) [1] [Scalar 2] None =
     (Inr (), \<lparr>keyframes = [1], values_seq = [Scalar 2], motion_types = [Linear],
               default_value = None, frozen = True\<rparr>) \<and>
   append \<lparr>keyframes = [1], values_seq = [Scalar 2], motion_types = [Linear],
           default_value = None, frozen = True\<rparr> 3 (Scalar 4) ''linear'' =
     (Inl AttributeError,
      \<lparr>keyframes = [1], values_seq = [Scalar 2], motion_types = [Linear],
        default_value = None, frozen = True\<rparr>)"
proof -
  have e: "extend (Motion None) [1] [Scalar 2] None =
     (Inr (), \<lparr>keyframes = [1], values_seq = [Scalar 2], motion_types = [Linear],
               default_value = None, frozen = True\<rparr>)"
    by (simp add: extend_def Motion_def zip3_def motion_types_to_func_def)
  from append_after_extend_fails[OF e, of 3 "Scalar 4" "''linear''"] e show ?thesis by simp
qed

text \<open>
  C8. On a curve with no keyframes, \<open>__call__\<close> returns \<open>default_value\<close> when one was given
  to the constructor and raises \<open>ValueError\<close> (no keyframes) when none was; the curve after
  the call is the curve before it.
\<close>

theorem call_without_keyframes:
  assumes "keyframes self = []"
  shows "motion_call self t =
           ((case default_value self of Some d \<Rightarrow> Inr d | None \<Rightarrow> Inl ValueError), self)"
  using assms by (simp add: motion_call_def evaluate_def)

theorem call_without_keyframes_witness:
  "keyframes (Motion (Some (Scalar 7))) = [] \<and>
   motion_call (Motion (Some (Scalar 7))) 3 = (Inr (Scalar 7), Motion (Some (Scalar 7))) \<and>
   keyframes (Motion None) = [] \<and>
   motion_call (Motion None) 3 = (Inl ValueError, Motion None)"
proof -
  have k: "keyframes (Motion (Some (Scalar 7))) = []" "keyframes (Motion None) = []"
    by (simp_all add: Motion_def)
  have d: "default_value (Motion (Some (Scalar 7))) = Some (Scalar 7)"
    "default_value (Motion None) = None"
    by (simp_all add: Motion_def)
  from call_without_keyframes[OF k(1), of 3] call_without_keyframes[OF k(2), of 3] k d
  show ?thesis by simp
qed

text \<open>
  C4, at a concrete input. \<open>Motion().append(1.0, 2.0, 'bogus')\<close> raises \<open>KeyError\<close> at the
  registry lookup of line 62, after lines 60 and 61 have inserted into \<open>keyframes\<close> and
  \<open>values\<close>: the curve is left with one keyframe, one value and no easing function.
\<close>

theorem append_unknown_easing_modifies:
  "append (Motion None) 1 (Scalar 2) ''bogus'' =
     (Inl KeyError,
      \<lparr>keyframes = [1], values_seq = [Scalar 2], motion_types = [],
        default_value = None, frozen = False\<rparr>)"
  by (simp add: append_def Motion_def bisect_def list_insert_def motion_types_to_func_def)

text \<open>
  C5, at a concrete input. After \<open>append(1.0, 5.0)\<close>, \<open>extend([1.0], [3.0])\<close> sorts the
  zipped tuples \<open>(1.0, 5.0, linear)\<close> and \<open>(1.0, 3.0, linear)\<close>: the times tie, the values
  decide, and the new entry (value 3.0) comes before the old one (value 5.0).
\<close>

theorem extend_tie_new_before_old:
  "append (Motion None) 1 (Scalar 5) ''linear'' =
     (Inr (), \<lparr>keyframes = [1], values_seq = [Scalar 5], motion_types = [Linear],
               default_value = None, frozen = False\<rparr>) \<and>
   extend \<lparr>keyframes = [1], values_seq = [Scalar 5], motion_types = [Linear],
           default_value = None, frozen = False\<rparr> [1] [Scalar 3] None =
     (Inr (), \<lparr>keyframes = [1, 1], values_seq = [Scalar 3, Scalar 5],
               motion_types = [Linear, Linear], default_value = None, frozen = True\<rparr>)"
  by (simp add: append_def extend_def Motion_def bisect_def list_insert_def zip3_def
      motion_types_to_func_def)

lemma getitem_nat: "i < length xs \<Longrightarrow> getitem xs (int i) = Inr (xs ! i)"
  by (simp add: getitem_def)

lemma getitem_first: "xs \<noteq> [] \<Longrightarrow> getitem xs 0 = Inr (hd xs)"
  by (cases xs) (simp_all add: getitem_def)

lemma getitem_last: "xs \<noteq> [] \<Longrightarrow> getitem xs (- 1) = Inr (last xs)"
proof -
  assume ne: "xs \<noteq> []"
  then obtain n where n: "length xs = Suc n" by (cases xs) simp_all
  have "getitem xs (- 1) = Inr (xs ! n)" by (simp add: getitem_def n)
  moreover have "last xs = xs ! n" using ne n by (simp add: last_conv_nth)
  ultimately show ?thesis by simp
qed

lemma getitem_pred:
  "0 < i \<Longrightarrow> i \<le> length xs \<Longrightarrow> getitem xs (int i - 1) = Inr (xs ! (i - 1))"
  using getitem_nat[of "i - 1" xs] by (simp add: of_nat_diff)

lemma bindE_Inr: "bindE (Inr v) f = f v"
  by (simp add: bindE_def)

lemma evaluate_interior:
  assumes inv: "aligned_sorted self"
    and len: "2 \<le> length (keyframes self)"
    and lo: "hd (keyframes self) \<le> t"
    and hi: "t < last (keyframes self)"
  defines "i \<equiv> bisect (keyframes self) t"
  shows "0 < i" "i < length (keyframes self)"
    "keyframes self ! (i - 1) \<le> t" "t < keyframes self ! i"
    "evaluate self t =
       interpolate (values_seq self ! (i - 1)) (values_seq self ! i)
         (ease (motion_types self ! (i - 1))
            ((t - keyframes self ! (i - 1)) / (keyframes self ! i - keyframes self ! (i - 1))))"
proof -
  let ?ks = "keyframes self"
  let ?n = "length ?ks"
  have srt: "sorted ?ks" and lv: "length (values_seq self) = ?n"
    and lf: "length (motion_types self) = ?n"
    using inv by (simp_all add: aligned_sorted_def)
  have ne: "?ks \<noteq> []"
  proof
    assume "?ks = []"
    with len show False by simp
  qed
  have below: "\<forall>j<i. ?ks ! j \<le> t" and above: "\<forall>j. i \<le> j \<and> j < ?n \<longrightarrow> t < ?ks ! j"
    using bisect_sorted[OF srt, of t] by (simp_all add: i_def)
  have ile: "i \<le> ?n" by (simp add: i_def bisect_le_length)
  show ipos: "0 < i"
  proof (rule ccontr)
    assume "\<not> 0 < i"
    then have "t < ?ks ! 0" using above ne by simp
    then show False using lo ne by (simp add: hd_conv_nth)
  qed
  show ilt: "i < ?n"
  proof (rule ccontr)
    assume "\<not> i < ?n"
    then have "i = ?n" using ile by simp
    then have "?ks ! (?n - 1) \<le> t" using below ne by simp
    then show False using hi ne by (simp add: last_conv_nth)
  qed
  show b1: "?ks ! (i - 1) \<le> t" using below ipos by simp
  show b2: "t < ?ks ! i" using above ilt by simp
  have g0: "getitem ?ks 0 = Inr (hd ?ks)" using ne by (rule getitem_first)
  have gl: "getitem ?ks (- 1) = Inr (last ?ks)" using ne by (rule getitem_last)
  have gki: "getitem ?ks (int i) = Inr (?ks ! i)" using ilt by (rule getitem_nat)
  have gkp: "getitem ?ks (int i - 1) = Inr (?ks ! (i - 1))"
    using ipos ile by (rule getitem_pred)
  have gvi: "getitem (values_seq self) (int i) = Inr (values_seq self ! i)"
    using ilt lv by (simp add: getitem_nat)
  have gvp: "getitem (values_seq self) (int i - 1) = Inr (values_seq self ! (i - 1))"
    using ipos ile lv by (simp add: getitem_pred)
  have gfp: "getitem (motion_types self) (int i - 1) = Inr (motion_types self ! (i - 1))"
    using ipos ile lf by (simp add: getitem_pred)
  have c1: "(length ?ks = 0) = False" "(length ?ks = 1) = False" using len ne by simp_all
  have c2: "(t < hd ?ks) = False" "(last ?ks \<le> t) = False" using lo hi by simp_all
  have dur: "(?ks ! i - ?ks ! (i - 1) = 0) = False" using b1 b2 by simp
  show "evaluate self t =
       interpolate (values_seq self ! (i - 1)) (values_seq self ! i)
         (ease (motion_types self ! (i - 1))
            ((t - ?ks ! (i - 1)) / (?ks ! i - ?ks ! (i - 1))))"
    unfolding evaluate_def
    by (simp only: c1 c2 g0 gl bindE_Inr if_False Let_def i_def[symmetric] gki gkp gvi gvp gfp dur)
qed

lemma evaluate_clamp_left:
  assumes "aligned_sorted self" "keyframes self \<noteq> []" "t < hd (keyframes self)"
  shows "evaluate self t = Inr (hd (values_seq self))"
proof -
  have vne: "values_seq self \<noteq> []" using assms(1,2) by (auto simp: aligned_sorted_def)
  show ?thesis
    using assms(2,3) getitem_first[OF vne] getitem_first[OF assms(2)]
    by (simp add: evaluate_def bindE_def)
qed

lemma evaluate_single:
  assumes "aligned_sorted self" "length (keyframes self) = 1"
  shows "evaluate self t = Inr (hd (values_seq self))"
proof -
  have vne: "values_seq self \<noteq> []" using assms by (auto simp: aligned_sorted_def)
  show ?thesis using assms(2) getitem_first[OF vne] by (simp add: evaluate_def)
qed

lemma evaluate_clamp_right:
  assumes "aligned_sorted self" "keyframes self \<noteq> []" "last (keyframes self) \<le> t"
  shows "evaluate self t = Inr (last (values_seq self))"
proof (cases "length (keyframes self) = 1")
  case True
  have "length (values_seq self) = 1" using assms(1) True by (simp add: aligned_sorted_def)
  then have "hd (values_seq self) = last (values_seq self)"
    by (cases "values_seq self") simp_all
  then show ?thesis using evaluate_single[OF assms(1) True, of t] by simp
next
  case False
  have vne: "values_seq self \<noteq> []" using assms(1,2) by (auto simp: aligned_sorted_def)
  have "sorted (keyframes self)" using assms(1) by (simp add: aligned_sorted_def)
  then have "hd (keyframes self) \<le> last (keyframes self)"
    using assms(2) by (cases "keyframes self") auto
  then have nl: "\<not> t < hd (keyframes self)" using assms(3) by simp
  show ?thesis
    using False assms(2,3) nl getitem_first[OF assms(2)] getitem_last[OF assms(2)]
      getitem_last[OF vne]
    by (simp add: evaluate_def bindE_def)
qed

text \<open>
  C3. On a well-formed curve with at least one keyframe, \<open>__call__\<close> clamps: a query time
  before the first keyframe gives the first value, a query time at or after the last
  keyframe gives the last value, and a curve with a single keyframe gives its one value
  at every query time.
\<close>

theorem call_clamps:
  assumes "aligned_sorted self" and "keyframes self \<noteq> []"
  shows "(t < hd (keyframes self) \<longrightarrow>
            motion_call self t = (Inr (hd (values_seq self)), self)) \<and>
         (last (keyframes self) \<le> t \<longrightarrow>
            motion_call self t = (Inr (last (values_seq self)), self)) \<and>
         (length (keyframes self) = 1 \<longrightarrow>
            motion_call self t = (Inr (hd (values_seq self)), self))"
  using evaluate_clamp_left[OF assms] evaluate_clamp_right[OF assms]
    evaluate_single[OF assms(1)]
  by (simp add: motion_call_def)

theorem call_clamps_witness:
  "append (Motion None) 5 (Scalar 10) ''linear'' =
     (Inr (), \<lparr>keyframes = [5], values_seq = [Scalar 10], motion_types = [Linear],
               default_value = None, frozen = False\<rparr>) \<and>
   fst (motion_call \<lparr>keyframes = [5], values_seq = [Scalar 10], motion_types = [Linear],
               default_value = None, frozen = False\<rparr> 3) = Inr (Scalar 10) \<and>
   fst (motion_call \<lparr>keyframes = [5], values_seq = [Scalar 10], motion_types = [Linear],
               default_value = None, frozen = False\<rparr> 5) = Inr (Scalar 10) \<and>
   fst (motion_call \<lparr>keyframes = [5], values_seq = [Scalar 10], motion_types = [Linear],
               default_value = None, frozen = False\<rparr> 8) = Inr (Scalar 10) \<and>
   fst (motion_call \<lparr>keyframes = [0, 10], values_seq = [Scalar 0, Scalar 100],
               motion_types = [Linear, Linear], default_value = None, frozen = False\<rparr> (- 1))
     = Inr (Scalar 0) \<and>
   fst (motion_call \<lparr>keyframes = [0, 10], values_seq = [Scalar 0, Scalar 100],
               motion_types = [Linear, Linear], default_value = None, frozen = False\<rparr> 11)
     = Inr (Scalar 100)"
proof -
  let ?one = "\<lparr>keyframes = [5], values_seq = [Scalar 10], motion_types = [Linear],
               default_value = None, frozen = False\<rparr>"
  let ?two = "\<lparr>keyframes = [0, 10], values_seq = [Scalar 0, Scalar 100],
               motion_types = [Linear, Linear], default_value = None, frozen = False\<rparr>"
  have a: "append (Motion None) 5 (Scalar 10) ''linear'' = (Inr (), ?one)"
    by (simp add: append_def Motion_def bisect_def list_insert_def motion_types_to_func_def)
  have i1: "aligned_sorted ?one" "keyframes ?one \<noteq> []"
    by (simp_all add: aligned_sorted_def)
  have i2: "aligned_sorted ?two" "keyframes ?two \<noteq> []"
    by (simp_all add: aligned_sorted_def)
  from call_clamps[OF i1, of 3] call_clamps[OF i1, of 5] call_clamps[OF i1, of 8]
    call_clamps[OF i2, of "- 1"] call_clamps[OF i2, of 11] a
  show ?thesis by simp
qed

text \<open>
  C1. On a well-formed curve with at least two keyframes and a query time strictly
  between the first and the last keyframe, \<open>__call__\<close> finds the index \<open>i\<close> with
  \<open>keyframes[i-1] \<le> time < keyframes[i]\<close>, takes
  \<open>t = (time - keyframes[i-1]) / (keyframes[i] - keyframes[i-1])\<close>, applies the easing
  function stored at \<open>i - 1\<close> to it, and returns \<open>m + (M - m) * eased\<close> for the two
  bracketing values: once for a scalar, on each of the two components, with the same eased
  \<open>t\<close>, for a 2-tuple. For keyframes \<open>(0, 0)\<close>, \<open>(10, 100)\<close> with linear easing the value
  at 5 is 50.
\<close>

theorem call_interpolates:
  assumes "aligned_sorted self" and "2 \<le> length (keyframes self)"
    and "hd (keyframes self) < time" and "time < last (keyframes self)"
  shows "\<exists>i. 0 < i \<and> i < length (keyframes self) \<and>
           keyframes self ! (i - 1) \<le> time \<and> time < keyframes self ! i \<and>
           (let t = (time - keyframes self ! (i - 1)) /
                    (keyframes self ! i - keyframes self ! (i - 1));
                e = ease (motion_types self ! (i - 1)) t
            in (\<forall>m M. values_seq self ! (i - 1) = Scalar m \<and> values_seq self ! i = Scalar M \<longrightarrow>
                   motion_call self time = (Inr (Scalar (m + (M - m) * e)), self)) \<and>
               (\<forall>m0 m1 M0 M1.
                   values_seq self ! (i - 1) = Pair m0 m1 \<and> values_seq self ! i = Pair M0 M1 \<longrightarrow>
                   motion_call self time =
                     (Inr (Pair (m0 + (M0 - m0) * e) (m1 + (M1 - m1) * e)), self)))"
proof -
  have lo: "hd (keyframes self) \<le> time" using assms(3) by simp
  note I = evaluate_interior[OF assms(1,2) lo assms(4)]
  show ?thesis
  proof (intro exI conjI)
    show "0 < bisect (keyframes self) time" by (rule I(1))
    show "bisect (keyframes self) time < length (keyframes self)" by (rule I(2))
    show "keyframes self ! (bisect (keyframes self) time - 1) \<le> time" by (rule I(3))
    show "time < keyframes self ! bisect (keyframes self) time" by (rule I(4))
    show "let t = (time - keyframes self ! (bisect (keyframes self) time - 1)) /
                    (keyframes self ! bisect (keyframes self) time -
                     keyframes self ! (bisect (keyframes self) time - 1));
                e = ease (motion_types self ! (bisect (keyframes self) time - 1)) t
            in (\<forall>m M. values_seq self ! (bisect (keyframes self) time - 1) = Scalar m \<and>
                     values_seq self ! bisect (keyframes self) time = Scalar M \<longrightarrow>
                   motion_call self time = (Inr (Scalar (m + (M - m) * e)), self)) \<and>
               (\<forall>m0 m1 M0 M1.
                   values_seq self ! (bisect (keyframes self) time - 1) = Pair m0 m1 \<and>
                   values_seq self ! bisect (keyframes self) time = Pair M0 M1 \<longrightarrow>
                   motion_call self time =
                     (Inr (Pair (m0 + (M0 - m0) * e) (m1 + (M1 - m1) * e)), self))"
      by (simp add: motion_call_def I(5) Let_def)
  qed
qed

theorem call_interpolates_witness:
  "motion_call \<lparr>keyframes = [0, 10], values_seq = [Scalar 0, Scalar 100],
       motion_types = [Linear, Linear], default_value = None, frozen = False\<rparr> 5 =
     (Inr (Scalar 50),
      \<lparr>keyframes = [0, 10], values_seq = [Scalar 0, Scalar 100],
       motion_types = [Linear, Linear], default_value = None, frozen = False\<rparr>) \<and>
   motion_call \<lparr>keyframes = [0, 2], values_seq = [Pair 0 0, Pair 4 8],
       motion_types = [EaseIn, Linear], default_value = None, frozen = False\<rparr> 1 =
     (Inr (Pair 1 2),
      \<lparr>keyframes = [0, 2], values_seq = [Pair 0 0, Pair 4 8],
       motion_types = [EaseIn, Linear], default_value = None, frozen = False\<rparr>)"
proof -
  let ?a = "\<lparr>keyframes = [0, 10], values_seq = [Scalar 0, Scalar 100],
       motion_types = [Linear, Linear], default_value = None, frozen = False\<rparr>"
  let ?b = "\<lparr>keyframes = [0, 2], values_seq = [Pair 0 0, Pair 4 8],
       motion_types = [EaseIn, Linear], default_value = None, frozen = False\<rparr>"
  have ha: "aligned_sorted ?a" "2 \<le> length (keyframes ?a)"
    "hd (keyframes ?a) < 5" "5 < last (keyframes ?a)"
    by (simp_all add: aligned_sorted_def)
  have hb: "aligned_sorted ?b" "2 \<le> length (keyframes ?b)"
    "hd (keyframes ?b) < 1" "1 < last (keyframes ?b)"
    by (simp_all add: aligned_sorted_def)
  from call_interpolates[OF ha] obtain i where
    i: "0 < i" "i < length (keyframes ?a)" and
    ri: "\<forall>m M. values_seq ?a ! (i - 1) = Scalar m \<and> values_seq ?a ! i = Scalar M \<longrightarrow>
           motion_call ?a 5 =
             (Inr (Scalar (m + (M - m) *
                ease (motion_types ?a ! (i - 1))
                  ((5 - keyframes ?a ! (i - 1)) / (keyframes ?a ! i - keyframes ?a ! (i - 1))))),
              ?a)"
    unfolding Let_def by blast
  from i have i1: "i = 1" by simp
  have A: "motion_call ?a 5 = (Inr (Scalar 50), ?a)"
    using ri[rule_format, of 0 100] by (simp add: i1)
  from call_interpolates[OF hb] obtain j where
    j: "0 < j" "j < length (keyframes ?b)" and
    rj: "\<forall>m0 m1 M0 M1.
           values_seq ?b ! (j - 1) = Pair m0 m1 \<and> values_seq ?b ! j = Pair M0 M1 \<longrightarrow>
           motion_call ?b 1 =
             (Inr (Pair
                (m0 + (M0 - m0) *
                   ease (motion_types ?b ! (j - 1))
                     ((1 - keyframes ?b ! (j - 1)) / (keyframes ?b ! j - keyframes ?b ! (j - 1))))
                (m1 + (M1 - m1) *
                   ease (motion_types ?b ! (j - 1))
                     ((1 - keyframes ?b ! (j - 1)) / (keyframes ?b ! j - keyframes ?b ! (j - 1))))),
              ?b)"
    unfolding Let_def by blast
  from j have j1: "j = 1" by simp
  have B: "motion_call ?b 1 = (Inr (Pair 1 2), ?b)"
    using rj[rule_format, of 0 0 4 8] by (simp add: j1 power2_eq_square)
  from A B show ?thesis by simp
qed

lemma cast_id: "cast v = v"
  by (cases v) simp_all

lemma zip3_list_insert:
  assumes "length vs = length ks" "length fs = length ks"
  shows "zip3 (list_insert i k ks) (list_insert i v vs) (list_insert i f fs) =
         list_insert i (k, v, f) (zip3 ks vs fs)"
  using assms by (simp add: zip3_def list_insert_def take_zip drop_zip zip_append)

lemma mset_list_insert: "mset (list_insert i x xs) = add_mset x (mset xs)"
proof -
  have "mset (take i xs @ drop i xs) = mset xs" by (simp only: append_take_drop_id)
  then have "mset (take i xs) + mset (drop i xs) = mset xs" by (simp only: mset_append)
  then show ?thesis by (simp add: list_insert_def)
qed

lemma map_fst_zip3:
  "length vs = length ks \<Longrightarrow> length fs = length ks \<Longrightarrow> map fst (zip3 ks vs fs) = ks"
  by (simp add: zip3_def)

lemma map_snd_zip3:
  "length vs = length ks \<Longrightarrow> length fs = length ks \<Longrightarrow>
   map (\<lambda>z. fst (snd z)) (zip3 ks vs fs) = vs \<and> map (\<lambda>z. snd (snd z)) (zip3 ks vs fs) = fs"
proof -
  assume a: "length vs = length ks" "length fs = length ks"
  have "map (\<lambda>z. fst (snd z)) (zip3 ks vs fs) = map fst (map snd (zip ks (zip vs fs)))"
    by (simp add: zip3_def)
  also have "\<dots> = vs" using a by simp
  finally have 1: "map (\<lambda>z. fst (snd z)) (zip3 ks vs fs) = vs" .
  have "map (\<lambda>z. snd (snd z)) (zip3 ks vs fs) = map snd (map snd (zip ks (zip vs fs)))"
    by (simp add: zip3_def)
  also have "\<dots> = fs" using a by simp
  finally show ?thesis using 1 by simp
qed

lemma append_registered:
  assumes "aligned_sorted self" "\<not> frozen self" "motion_types_to_func name = Some f"
  shows "\<exists>s'. append self k v name = (Inr (), s') \<and> aligned_sorted s' \<and> \<not> frozen s' \<and>
           default_value s' = default_value self \<and>
           mset (triples_of s') = add_mset (k, cast v, f) (mset (triples_of self))"
proof -
  let ?i = "bisect (keyframes self) k"
  let ?s = "self\<lparr>keyframes := list_insert ?i k (keyframes self),
                  values_seq := list_insert ?i (cast v) (values_seq self),
                  motion_types := list_insert ?i f (motion_types self)\<rparr>"
  have a: "append self k v name = (Inr (), ?s)"
    using assms(2,3) by (simp add: append_def Let_def)
  have inv: "aligned_sorted ?s" using append_success_invariant[OF assms(1) a] .
  have l: "length (values_seq self) = length (keyframes self)"
    "length (motion_types self) = length (keyframes self)"
    using assms(1) by (simp_all add: aligned_sorted_def)
  have "triples_of ?s = list_insert ?i (k, cast v, f) (triples_of self)"
    using zip3_list_insert[OF l] by (simp add: triples_of_def)
  then have "mset (triples_of ?s) = add_mset (k, cast v, f) (mset (triples_of self))"
    by (simp add: mset_list_insert)
  with a inv assms(2) show ?thesis by simp
qed

lemma appends_registered:
  assumes "aligned_sorted self" "\<not> frozen self" "registered ts"
  shows "\<exists>s'. appends self ts = (Inr (), s') \<and> aligned_sorted s' \<and>
           default_value s' = default_value self \<and>
           mset (triples_of s') = mset (map stored ts) + mset (triples_of self)"
  using assms
proof (induction ts arbitrary: self)
  case Nil
  then show ?case by simp
next
  case (Cons x ts)
  obtain k v name where x: "x = (k, v, name)" by (cases x) auto
  from Cons.prems(3) obtain f where f: "motion_types_to_func name = Some f"
    by (auto simp: registered_def x)
  from append_registered[OF Cons.prems(1,2) f, of k v] obtain s1 where
    s1: "append self k v name = (Inr (), s1)" "aligned_sorted s1" "\<not> frozen s1"
      "default_value s1 = default_value self"
      "mset (triples_of s1) = add_mset (k, cast v, f) (mset (triples_of self))"
    by blast
  have r: "registered ts" using Cons.prems(3) by (simp add: registered_def)
  from Cons.IH[OF s1(2,3) r] obtain s' where
    s': "appends s1 ts = (Inr (), s')" "aligned_sorted s'"
      "default_value s' = default_value s1"
      "mset (triples_of s') = mset (map stored ts) + mset (triples_of s1)"
    by blast
  have st: "stored x = (k, cast v, f)" by (simp add: stored_def x f)
  have "appends self (x # ts) = (Inr (), s')" using s1(1) s'(1) by (simp add: x)
  moreover have "mset (triples_of s') = mset (map stored (x # ts)) + mset (triples_of self)"
    using s'(4) s1(5) st by simp
  ultimately show ?case using s'(2,3) s1(4) by auto
qed

lemma lookup_all_registered:
  "\<forall>n\<in>set names. motion_types_to_func n \<noteq> None \<Longrightarrow>
   lookup_all names = Inr (map (\<lambda>n. the (motion_types_to_func n)) names)"
  by (induction names) auto

lemma lt_triple_distinct: "fst y \<noteq> fst x \<Longrightarrow> lt_triple y x = Inr (fst y < fst x)"
  by (cases y; cases x) simp

lemma insort_py_distinct:
  "fst x \<notin> fst ` set ys \<Longrightarrow> \<exists>zs. insort_py x ys = Inr zs \<and> mset zs = add_mset x (mset ys)"
proof (induction ys)
  case Nil
  then show ?case by simp
next
  case (Cons y ys)
  then have ne: "fst y \<noteq> fst x" and rest: "fst x \<notin> fst ` set ys" by auto
  from Cons.IH[OF rest] obtain ws where
    ws: "insort_py x ys = Inr ws" "mset ws = add_mset x (mset ys)" by blast
  show ?case
  proof (cases "fst y < fst x")
    case True
    then have "insort_py x (y # ys) = Inr (y # ws)"
      using lt_triple_distinct[OF ne] ws(1) by simp
    then show ?thesis using ws(2) by simp
  next
    case False
    then have "insort_py x (y # ys) = Inr (x # y # ys)"
      using lt_triple_distinct[OF ne] by simp
    then show ?thesis by simp
  qed
qed

lemma sorted_py_distinct:
  "distinct (map fst xs) \<Longrightarrow>
   \<exists>zs. sorted_py xs = Inr zs \<and> mset zs = mset xs \<and> sorted (map fst zs)"
proof (induction xs)
  case Nil
  then show ?case by simp
next
  case (Cons x xs)
  then obtain ys where ys: "sorted_py xs = Inr ys" "mset ys = mset xs" by auto
  have "set ys = set xs" using ys(2) by (rule mset_eq_setD)
  then have "fst x \<notin> fst ` set ys" using Cons.prems by auto
  from insort_py_distinct[OF this] obtain zs where
    zs: "insort_py x ys = Inr zs" "mset zs = add_mset x (mset ys)" by blast
  have s: "sorted_py (x # xs) = Inr zs" using ys(1) zs(1) by simp
  from sorted_py_sorted[OF s] s zs(2) ys(2) show ?case by simp
qed

lemma sorted_distinct_keys_unique:
  assumes "sorted (map fst xs)" "sorted (map fst ys)" "distinct (map fst xs)"
    and "mset xs = mset (ys :: triple list)"
  shows "xs = ys"
proof -
  have st: "set xs = set ys" using assms(4) by (rule mset_eq_setD)
  have "mset (map fst xs) = mset (map fst ys)" using assms(4) by simp
  then have dy: "distinct (map fst ys)" using assms(3) by (metis mset_eq_imp_distinct_iff)
  have "set (map fst xs) = set (map fst ys)" using st by simp
  then have m: "map fst xs = map fst ys"
    using assms(1,2,3) dy by (metis sorted_distinct_set_unique)
  have "inj_on fst (set xs)" using assms(3) by (simp add: distinct_map)
  then have "inj_on fst (set xs \<union> set ys)" using st by simp
  then show ?thesis using m by (simp add: inj_on_map_eq_map)
qed

lemma evaluate_fields:
  assumes "keyframes a = keyframes b" "values_seq a = values_seq b"
    "motion_types a = motion_types b" "default_value a = default_value b"
  shows "evaluate a q = evaluate b q"
  unfolding evaluate_def assms by (rule refl)

lemma zip3_stored:
  assumes "registered ts"
  shows "zip3 (map fst ts) (map cast (map (\<lambda>x. fst (snd x)) ts))
           (map (\<lambda>n. the (motion_types_to_func n)) (map (\<lambda>x. snd (snd x)) ts)) =
         map stored ts"
  by (induction ts) (simp_all add: zip3_def stored_def)

text \<open>
  Order-of-construction independence on a non-empty set of keyframes with pairwise
  distinct times and registered easing names: one \<open>extend\<close> over the set on a fresh
  curve and one \<open>append\<close> per keyframe, in any order, both return, and the two curves
  evaluate alike at every query time.
\<close>

lemma extend_appends_agree:
  assumes ne: "ts \<noteq> []" and dist: "distinct (map fst ts)" and reg: "registered ts"
    and perm: "mset ts' = mset ts"
  shows "\<exists>c1 c2.
           extend (Motion dv) (map fst ts) (map (\<lambda>x. fst (snd x)) ts)
             (Some (map (\<lambda>x. snd (snd x)) ts)) = (Inr (), c1) \<and>
           appends (Motion dv) ts' = (Inr (), c2) \<and>
           fst (motion_call c1 q) = fst (motion_call c2 q)"
proof -
  let ?names = "map (\<lambda>x. snd (snd x)) ts"
  let ?fs = "map (\<lambda>n. the (motion_types_to_func n)) ?names"
  have "\<forall>n\<in>set ?names. motion_types_to_func n \<noteq> None"
    using reg by (auto simp: registered_def)
  then have lk: "lookup_all ?names = Inr ?fs" by (rule lookup_all_registered)
  have ms0: "map fst (map stored ts) = map fst ts"
    by (induction ts) (simp_all add: stored_def)
  have ds: "distinct (map fst (map stored ts))" unfolding ms0 by (rule dist)
  from sorted_py_distinct[OF ds] obtain zipped where
    z: "sorted_py (map stored ts) = Inr zipped" "mset zipped = mset (map stored ts)"
      "sorted (map fst zipped)"
    by blast
  have zne: "zipped \<noteq> []" using z(2) ne by auto
  let ?c1 = "(Motion dv)\<lparr>keyframes := map fst zipped,
                values_seq := map (\<lambda>z. fst (snd z)) zipped,
                motion_types := map (\<lambda>z. snd (snd z)) zipped,
                frozen := True\<rparr>"
  have e: "extend (Motion dv) (map fst ts) (map (\<lambda>x. fst (snd x)) ts) (Some ?names) =
           (Inr (), ?c1)"
    using lk z(1) zne zip3_stored[OF reg]
    by (simp add: extend_def Let_def Motion_def)
  have i0: "aligned_sorted (Motion dv)" "\<not> frozen (Motion dv)"
    by (simp_all add: aligned_sorted_def Motion_def)
  have reg': "registered ts'"
    using reg mset_eq_setD[OF perm] by (simp add: registered_def)
  from appends_registered[OF i0 reg'] obtain c2 where
    c2: "appends (Motion dv) ts' = (Inr (), c2)" "aligned_sorted c2"
      "default_value c2 = default_value (Motion dv)"
      "mset (triples_of c2) = mset (map stored ts') + mset (triples_of (Motion dv))"
    by blast
  have l2: "length (values_seq c2) = length (keyframes c2)"
    "length (motion_types c2) = length (keyframes c2)" and s2: "sorted (keyframes c2)"
    using c2(2) by (simp_all add: aligned_sorted_def)
  have k2: "map fst (triples_of c2) = keyframes c2"
    using map_fst_zip3[OF l2] by (simp add: triples_of_def)
  have v2: "map (\<lambda>z. fst (snd z)) (triples_of c2) = values_seq c2"
    "map (\<lambda>z. snd (snd z)) (triples_of c2) = motion_types c2"
    using map_snd_zip3[OF l2] by (simp_all add: triples_of_def)
  have "mset (triples_of c2) = mset (map stored ts')"
    using c2(4) by (simp add: triples_of_def Motion_def zip3_def)
  also have "\<dots> = mset (map stored ts)" using perm by (metis mset_map)
  finally have ms: "mset zipped = mset (triples_of c2)" using z(2) by simp
  have "mset (map fst zipped) = mset (map fst (map stored ts))" using z(2) by (metis mset_map)
  then have dz: "distinct (map fst zipped)" using ds by (metis mset_eq_imp_distinct_iff)
  have eq: "zipped = triples_of c2"
    using sorted_distinct_keys_unique[OF z(3) _ dz ms] s2 k2 by simp
  have "evaluate ?c1 q = evaluate c2 q"
    by (rule evaluate_fields) (simp_all add: eq k2 v2 c2(3))
  then show ?thesis using e c2(1) by (simp add: motion_call_def)
qed

text \<open>
  C6, at a concrete input. On a fresh curve with a default value, \<open>extend([], [], [])\<close>
  raises \<open>ValueError\<close> at the unpacking of line 74, so the curve built by one \<open>extend\<close>
  over the empty set of keyframes does not exist, while the curve built by no \<open>append\<close>
  at all evaluates to the default value.
\<close>

theorem extend_empty_raises:
  "extend (Motion (Some (Scalar 1))) [] [] (Some []) =
     (Inl ValueError, Motion (Some (Scalar 1))) \<and>
   appends (Motion (Some (Scalar 1))) [] = (Inr (), Motion (Some (Scalar 1))) \<and>
   motion_call (Motion (Some (Scalar 1))) 0 = (Inr (Scalar 1), Motion (Some (Scalar 1)))"
  by (simp add: extend_def Motion_def zip3_def motion_call_def evaluate_def)

lemma resolve_cache_ok:
  assumes "cache_ok tline"
  shows "fst (resolve tline t) = candidate_lookup (start_times tline) (end_times tline) t"
    and "cache_ok (snd (resolve tline t))"
    and "start_times (snd (resolve tline t)) = start_times tline"
    and "end_times (snd (resolve tline t)) = end_times tline"
proof -
  show "fst (resolve tline t) = candidate_lookup (start_times tline) (end_times tline) t"
  proof (cases "cache tline")
    case None
    then show ?thesis by (simp add: resolve_def Let_def)
  next
    case (Some p)
    obtain t' i where p: "p = (t', i)" by (cases p) auto
    from assms Some p have "i = candidate_lookup (start_times tline) (end_times tline) t'"
      by (simp add: cache_ok_def)
    then show ?thesis using Some p by (simp add: resolve_def Let_def)
  qed
  show "cache_ok (snd (resolve tline t))"
  proof (cases "cache tline")
    case None
    then show ?thesis by (simp add: resolve_def Let_def cache_ok_def)
  next
    case (Some p)
    obtain t' i where p: "p = (t', i)" by (cases p) auto
    show ?thesis using assms Some p by (simp add: resolve_def Let_def cache_ok_def)
  qed
  show "start_times (snd (resolve tline t)) = start_times tline"
    by (cases "cache tline") (auto simp: resolve_def Let_def)
  show "end_times (snd (resolve tline t)) = end_times tline"
    by (cases "cache tline") (auto simp: resolve_def Let_def)
qed

lemma queried_cache_ok:
  "cache_ok tline \<Longrightarrow>
   cache_ok (queried tline qs) \<and> start_times (queried tline qs) = start_times tline \<and>
   end_times (queried tline qs) = end_times tline"
proof (induction qs arbitrary: tline)
  case Nil
  then show ?case by simp
next
  case (Cons q qs)
  from Cons.IH[OF resolve_cache_ok(2)[OF Cons.prems, of q]]
    resolve_cache_ok(3,4)[OF Cons.prems, of q]
  show ?case by simp
qed

lemma make_timeline_ok:
  "make_timeline ss es = Inr tline \<Longrightarrow>
   cache_ok tline \<and> start_times tline = ss \<and> end_times tline = es \<and> length ss = length es"
  by (auto simp: make_timeline_def cache_ok_def split: if_splits)

lemma sorted_disjoint_nth:
  "sorted_disjoint ss es \<Longrightarrow>
   length ss = length es \<and> (\<forall>i<length ss. ss ! i < es ! i) \<and>
   (\<forall>i. Suc i < length ss \<longrightarrow> es ! i \<le> ss ! Suc i)"
proof (induction ss es rule: sorted_disjoint.induct)
  case 1
  then show ?case by simp
next
  case (2 s e)
  then show ?case by simp
next
  case (3 s s' ss e es)
  then have h: "s < e" "e \<le> s'" and r: "sorted_disjoint (s' # ss) es" by simp_all
  from "3.IH"[OF r] have
    l: "length (s' # ss) = length es" and
    a: "\<forall>i<length (s' # ss). (s' # ss) ! i < es ! i" and
    b: "\<forall>i. Suc i < length (s' # ss) \<longrightarrow> es ! i \<le> (s' # ss) ! Suc i"
    by blast+
  have 1: "length (s # s' # ss) = length (e # es)" using l by simp
  have 2: "\<forall>i<length (s # s' # ss). (s # s' # ss) ! i < (e # es) ! i"
  proof (intro allI impI)
    fix i assume i: "i < length (s # s' # ss)"
    show "(s # s' # ss) ! i < (e # es) ! i"
    proof (cases i)
      case 0
      then show ?thesis using h(1) by simp
    next
      case (Suc j)
      then show ?thesis using a i by simp
    qed
  qed
  have 3: "\<forall>i. Suc i < length (s # s' # ss) \<longrightarrow> (e # es) ! i \<le> (s # s' # ss) ! Suc i"
  proof (intro allI impI)
    fix i assume i: "Suc i < length (s # s' # ss)"
    show "(e # es) ! i \<le> (s # s' # ss) ! Suc i"
    proof (cases i)
      case 0
      then show ?thesis using h(2) by simp
    next
      case (Suc j)
      then show ?thesis using b i by simp
    qed
  qed
  from 1 2 3 show ?case by blast
qed simp_all

lemma sorted_disjoint_sorted:
  assumes "sorted_disjoint ss es"
  shows "sorted ss"
proof -
  from sorted_disjoint_nth[OF assms] have
    l: "length ss = length es" and a: "\<forall>i<length ss. ss ! i < es ! i" and
    b: "\<forall>i. Suc i < length ss \<longrightarrow> es ! i \<le> ss ! Suc i" by blast+
  have "\<forall>i. Suc i < length ss \<longrightarrow> ss ! i \<le> ss ! Suc i"
  proof (intro allI impI)
    fix i assume i: "Suc i < length ss"
    then have "ss ! i < es ! i" using a by simp
    moreover have "es ! i \<le> ss ! Suc i" using b i by simp
    ultimately show "ss ! i \<le> ss ! Suc i" by simp
  qed
  then show ?thesis by (simp add: sorted_iff_nth_Suc)
qed

lemma candidate_lookup_result:
  assumes "length ss = length es" "candidate_lookup ss es t \<noteq> - 1"
  shows "0 \<le> candidate_lookup ss es t \<and> nat (candidate_lookup ss es t) < length ss \<and>
         ss ! nat (candidate_lookup ss es t) \<le> t \<and> t < es ! nat (candidate_lookup ss es t)"
proof -
  let ?idx = "int (bisect ss t) - 1"
  have d: "candidate_lookup ss es t =
             (if 0 \<le> ?idx \<and> ss ! nat ?idx \<le> t \<and> t < es ! nat ?idx then ?idx else - 1)"
    unfolding candidate_lookup_def Let_def by (rule refl)
  have c: "0 \<le> ?idx \<and> ss ! nat ?idx \<le> t \<and> t < es ! nat ?idx"
    using assms(2) d by metis
  then have r: "candidate_lookup ss es t = ?idx" using d by metis
  have "bisect ss t \<le> length ss" by (rule bisect_le_length)
  then have "nat ?idx < length ss" using c by linarith
  then show ?thesis using c r by simp
qed

lemma candidate_lookup_contains:
  assumes sd: "sorted_disjoint ss es" and i: "i < length ss"
    and c: "ss ! i \<le> t" "t < es ! i"
  shows "candidate_lookup ss es t = int i"
proof -
  from sorted_disjoint_nth[OF sd] have
    b: "\<forall>i. Suc i < length ss \<longrightarrow> es ! i \<le> ss ! Suc i" by blast
  have srt: "sorted ss" using sd by (rule sorted_disjoint_sorted)
  let ?b = "bisect ss t"
  have below: "\<forall>j<?b. ss ! j \<le> t" and above: "\<forall>j. ?b \<le> j \<and> j < length ss \<longrightarrow> t < ss ! j"
    using bisect_sorted[OF srt, of t] by simp_all
  have ble: "?b \<le> length ss" by (rule bisect_le_length)
  have 1: "i < ?b"
  proof (rule ccontr)
    assume "\<not> i < ?b"
    then have "t < ss ! i" using above i by simp
    with c(1) show False by simp
  qed
  have 2: "\<not> Suc i < ?b"
  proof
    assume s: "Suc i < ?b"
    then have "ss ! Suc i \<le> t" using below by simp
    moreover have "es ! i \<le> ss ! Suc i" using b s ble by simp
    ultimately show False using c(2) by simp
  qed
  from 1 2 have "?b = Suc i" by simp
  then show ?thesis using c by (simp add: candidate_lookup_def Let_def)
qed

lemma first_containing_from_found:
  "length ss = length es \<Longrightarrow> i < length ss \<Longrightarrow> ss ! i \<le> t \<Longrightarrow> t < es ! i \<Longrightarrow>
   \<forall>j<i. \<not> (ss ! j \<le> t \<and> t < es ! j) \<Longrightarrow>
   first_containing_from k ss es t = k + int i"
proof (induction k ss es t arbitrary: i rule: first_containing_from.induct)
  case (1 k s ss e es t)
  show ?case
  proof (cases i)
    case 0
    then show ?thesis using "1.prems" by simp
  next
    case (Suc n)
    have n0: "\<not> (s \<le> t \<and> t < e)" using "1.prems"(5) Suc by fastforce
    have "\<forall>j<n. \<not> (ss ! j \<le> t \<and> t < es ! j)"
    proof (intro allI impI)
      fix j assume "j < n"
      then have "Suc j < i" using Suc by simp
      with "1.prems"(5) have "\<not> ((s # ss) ! Suc j \<le> t \<and> t < (e # es) ! Suc j)" by blast
      then show "\<not> (ss ! j \<le> t \<and> t < es ! j)" by simp
    qed
    then have "first_containing_from (k + 1) ss es t = k + 1 + int n"
      using "1.IH"[OF n0, of n] "1.prems"(1-4) Suc by simp
    moreover have "first_containing_from k (s # ss) (e # es) t =
                   first_containing_from (k + 1) ss es t"
      using n0 by auto
    ultimately show ?thesis using Suc by simp
  qed
qed simp_all

lemma first_containing_from_none:
  "length ss = length es \<Longrightarrow> \<forall>j<length ss. \<not> (ss ! j \<le> t \<and> t < es ! j) \<Longrightarrow>
   first_containing_from k ss es t = - 1"
proof (induction k ss es t rule: first_containing_from.induct)
  case (1 k s ss e es t)
  have n0: "\<not> (s \<le> t \<and> t < e)" using "1.prems"(2) by fastforce
  have "\<forall>j<length ss. \<not> (ss ! j \<le> t \<and> t < es ! j)"
  proof (intro allI impI)
    fix j assume "j < length ss"
    then have "Suc j < length (s # ss)" by simp
    with "1.prems"(2) have "\<not> ((s # ss) ! Suc j \<le> t \<and> t < (e # es) ! Suc j)" by blast
    then show "\<not> (ss ! j \<le> t \<and> t < es ! j)" by simp
  qed
  then have "first_containing_from (k + 1) ss es t = - 1"
    using "1.IH"[OF n0] "1.prems"(1) by simp
  moreover have "first_containing_from k (s # ss) (e # es) t =
                 first_containing_from (k + 1) ss es t"
    using n0 by auto
  ultimately show ?case by simp
qed simp_all

text \<open>
  C2, as amended. On a timeline constructed from sorted, non-overlapping intervals, and
  after any earlier queries, \<open>resolve(time)\<close> returns the index of the first interval with
  \<open>start \<le> time < end\<close>, which is the only such interval, and \<open>-1\<close> when no interval
  contains \<open>time\<close>; in particular it returns \<open>-1\<close> for a time from the end of one interval
  up to the start of the next.
\<close>

theorem resolve_sorted_disjoint:
  assumes mk: "make_timeline ss es = Inr tline" and sd: "sorted_disjoint ss es"
  shows "fst (resolve (queried tline qs) t) = first_containing ss es t \<and>
         (\<forall>i<length ss. ss ! i \<le> t \<and> t < es ! i \<longrightarrow>
            fst (resolve (queried tline qs) t) = int i) \<and>
         ((\<forall>i<length ss. \<not> (ss ! i \<le> t \<and> t < es ! i)) \<longrightarrow>
            fst (resolve (queried tline qs) t) = - 1) \<and>
         (\<forall>i. Suc i < length ss \<and> es ! i \<le> t \<and> t < ss ! Suc i \<longrightarrow>
            fst (resolve (queried tline qs) t) = - 1)"
proof -
  from make_timeline_ok[OF mk] have
    ok: "cache_ok tline" and st: "start_times tline = ss" "end_times tline = es"
    and len: "length ss = length es" by blast+
  from queried_cache_ok[OF ok, of qs] have
    okq: "cache_ok (queried tline qs)" and
    stq: "start_times (queried tline qs) = ss" "end_times (queried tline qs) = es"
    using st by simp_all
  have r: "fst (resolve (queried tline qs) t) = candidate_lookup ss es t"
    using resolve_cache_ok(1)[OF okq, of t] stq by simp
  from sorted_disjoint_nth[OF sd] have
    a: "\<forall>i<length ss. ss ! i < es ! i" and
    b: "\<forall>i. Suc i < length ss \<longrightarrow> es ! i \<le> ss ! Suc i" by blast+
  have srt: "sorted ss" using sd by (rule sorted_disjoint_sorted)
  have found: "\<forall>i<length ss. ss ! i \<le> t \<and> t < es ! i \<longrightarrow> candidate_lookup ss es t = int i"
    using candidate_lookup_contains[OF sd] by blast
  have none: "(\<forall>i<length ss. \<not> (ss ! i \<le> t \<and> t < es ! i)) \<longrightarrow> candidate_lookup ss es t = - 1"
    using candidate_lookup_result[OF len, of t] by blast
  have first: "candidate_lookup ss es t = first_containing ss es t"
  proof (cases "\<exists>i<length ss. ss ! i \<le> t \<and> t < es ! i")
    case True
    then obtain i where i: "i < length ss" "ss ! i \<le> t" "t < es ! i" by blast
    have uniq: "\<forall>j<i. \<not> (ss ! j \<le> t \<and> t < es ! j)"
    proof (intro allI impI notI)
      fix j assume j: "j < i" and c: "ss ! j \<le> t \<and> t < es ! j"
      have "candidate_lookup ss es t = int j" using found j i(1) c by simp
      moreover have "candidate_lookup ss es t = int i" using found i by simp
      ultimately show False using j by simp
    qed
    have "first_containing ss es t = int i"
      using first_containing_from_found[OF len i uniq, of 0] by (simp add: first_containing_def)
    then show ?thesis using found i by simp
  next
    case False
    then have n: "\<forall>i<length ss. \<not> (ss ! i \<le> t \<and> t < es ! i)" by blast
    have "first_containing ss es t = - 1"
      using first_containing_from_none[OF len n, of 0] by (simp add: first_containing_def)
    then show ?thesis using none n by simp
  qed
  have gap: "\<forall>i. Suc i < length ss \<and> es ! i \<le> t \<and> t < ss ! Suc i \<longrightarrow>
               candidate_lookup ss es t = - 1"
  proof (intro allI impI)
    fix i assume g: "Suc i < length ss \<and> es ! i \<le> t \<and> t < ss ! Suc i"
    have "\<forall>j<length ss. \<not> (ss ! j \<le> t \<and> t < es ! j)"
    proof (intro allI impI notI)
      fix j assume j: "j < length ss" and c: "ss ! j \<le> t \<and> t < es ! j"
      have ji: "j \<le> i"
      proof (rule ccontr)
        assume "\<not> j \<le> i"
        then have "Suc i \<le> j" by simp
        then have "ss ! Suc i \<le> ss ! j" using srt j by (simp add: sorted_nth_mono)
        with c g show False by simp
      qed
      show False
      proof (cases "j = i")
        case True
        with c g show False by simp
      next
        case False
        then have "Suc j \<le> i" using ji by simp
        then have "ss ! Suc j \<le> ss ! i" using srt g by (simp add: sorted_nth_mono)
        moreover have "es ! j \<le> ss ! Suc j" using b \<open>Suc j \<le> i\<close> g by simp
        moreover have "ss ! i < es ! i" using a g by simp
        ultimately show False using c g by simp
      qed
    qed
    with none show "candidate_lookup ss es t = - 1" by blast
  qed
  from r first found none gap show ?thesis by simp
qed

theorem resolve_sorted_disjoint_witness:
  "make_timeline [0, 2, 5] [1, 4, 6] =
     Inr \<lparr>start_times = [0, 2, 5], end_times = [1, 4, 6], cache = None\<rparr> \<and>
   sorted_disjoint [0, 2, 5] [1, 4, 6] \<and>
   fst (resolve (queried \<lparr>start_times = [0, 2, 5], end_times = [1, 4, 6], cache = None\<rparr> [3])
          3) = 1 \<and>
   first_containing [0, 2, 5] [1, 4, 6] 3 = 1 \<and>
   fst (resolve (queried \<lparr>start_times = [0, 2, 5], end_times = [1, 4, 6], cache = None\<rparr> [3])
          (9 / 2)) = - 1 \<and>
   first_containing [0, 2, 5] [1, 4, 6] (9 / 2) = - 1"
proof -
  let ?tl = "\<lparr>start_times = [0, 2, 5], end_times = [1, 4, 6], cache = None\<rparr>"
  have mk: "make_timeline [0, 2, 5] [1, 4, 6] = Inr ?tl" by (simp add: make_timeline_def)
  have sd: "sorted_disjoint [0, 2, 5] [1, 4, 6]" by simp
  have f1: "first_containing [0, 2, 5] [1, 4, 6] 3 = 1" by (simp add: first_containing_def)
  have f2: "first_containing [0, 2, 5] [1, 4, 6] (9 / 2) = - 1"
    by (simp add: first_containing_def)
  from resolve_sorted_disjoint[OF mk sd, of "[3]" 3]
    resolve_sorted_disjoint[OF mk sd, of "[3]" "9 / 2"] mk sd f1 f2
  show ?thesis by simp
qed

text \<open>
  C2 as stated fails off the sorted, non-overlapping case. For starts \<open>[0, 1]\<close> and ends
  \<open>[10, 2]\<close> the interval 0 contains the time 5, so the first containing index is 0; the
  binary search proposes interval 1, which does not contain 5, and \<open>resolve\<close> returns \<open>-1\<close>.
\<close>

theorem resolve_overlap_counterexample:
  "make_timeline [0, 1] [10, 2] =
     Inr \<lparr>start_times = [0, 1], end_times = [10, 2], cache = None\<rparr> \<and>
   fst (resolve \<lparr>start_times = [0, 1], end_times = [10, 2], cache = None\<rparr> 5) = - 1 \<and>
   first_containing [0, 1] [10, 2] 5 = 0"
  by (simp add: make_timeline_def resolve_def candidate_lookup_def first_containing_def
      bisect_def Let_def)

lemma get_eye_state_snd: "snd (get_eye_state h r self time idx) = self"
proof (cases "getitem (character_timeline self) idx")
  case (Inl e)
  then show ?thesis by (simp add: get_eye_state_def)
next
  case (Inr emotion)
  show ?thesis
  proof (cases "eye_imgs self emotion")
    case None
    with Inr show ?thesis by (simp add: get_eye_state_def)
  next
    case (Some eyes)
    with Inr show ?thesis by (simp add: get_eye_state_def Let_def)
  qed
qed

lemma eye_view_fields:
  assumes "eye_view a = eye_view b"
  shows "character_name a = character_name b"
    and "character_timeline a = character_timeline b"
    and "blink_per_minute a = blink_per_minute b"
    and "blink_duration a = blink_duration b"
    and "map_option length (eye_imgs a emotion) = map_option length (eye_imgs b emotion)"
proof -
  from assms have
    "(\<lambda>emotion. map_option length (eye_imgs a emotion)) =
     (\<lambda>emotion. map_option length (eye_imgs b emotion))"
    by (simp add: eye_view_def)
  then show "map_option length (eye_imgs a emotion) = map_option length (eye_imgs b emotion)"
    by (rule fun_cong)
qed (use assms in \<open>simp_all add: eye_view_def\<close>)

lemma get_eye_state_view:
  assumes "eye_view a = eye_view b"
  shows "fst (get_eye_state h r a time idx) = fst (get_eye_state h r b time idx)"
proof -
  note f = eye_view_fields[OF assms]
  show ?thesis
  proof (cases "getitem (character_timeline b) idx")
    case (Inl e)
    then show ?thesis by (simp add: get_eye_state_def f(2))
  next
    case (Inr emotion)
    show ?thesis
    proof (cases "eye_imgs b emotion")
      case None
      then have "eye_imgs a emotion = None" using f(5)[of emotion] by simp
      with None Inr show ?thesis by (simp add: get_eye_state_def f(2))
    next
      case (Some ys)
      then obtain xs where xs: "eye_imgs a emotion = Some xs" "length xs = length ys"
        using f(5)[of emotion] by (cases "eye_imgs a emotion") simp_all
      show ?thesis
        using Inr Some xs by (simp add: get_eye_state_def Let_def f(1,2,3,4))
    qed
  qed
qed

lemma resolve_view: "eye_view (snd (resolve self t)) = eye_view self"
  by (cases "cache self") (auto simp: resolve_def Let_def eye_view_def)

lemma length_setitem: "length (setitem xs i v) = length xs"
  by (simp add: setitem_def)

lemma view_character_imgs: "eye_view (s\<lparr>character_imgs := m\<rparr>) = eye_view s"
  by (simp add: eye_view_def)

lemma view_eye_imgs:
  assumes "eye_imgs s emotion = Some eyes" "length eyes' = length eyes"
  shows "eye_view (s\<lparr>eye_imgs := (eye_imgs s)(emotion \<mapsto> eyes')\<rparr>) = eye_view s"
proof -
  have "(\<lambda>e. map_option length (((eye_imgs s)(emotion \<mapsto> eyes')) e)) =
        (\<lambda>e. map_option length (eye_imgs s e))"
  proof
    fix e
    show "map_option length (((eye_imgs s)(emotion \<mapsto> eyes')) e) =
          map_option length (eye_imgs s e)"
      using assms by (cases "e = emotion") simp_all
  qed
  then show ?thesis by (simp add: eye_view_def)
qed

lemma get_key_view: "eye_view (snd (get_key h r self t)) = eye_view self"
proof -
  let ?s1 = "snd (resolve self t)"
  let ?idx = "fst (resolve self t)"
  have "snd (get_key h r self t) = ?s1"
  proof (cases "?idx < 0")
    case True
    then show ?thesis by (simp add: get_key_def Let_def)
  next
    case False
    show ?thesis
    proof (cases "getitem (character_timeline ?s1) ?idx")
      case (Inl e)
      with False show ?thesis by (simp add: get_key_def Let_def)
    next
      case (Inr emotion)
      show ?thesis
      proof (cases "fst (get_eye_state h r ?s1 t ?idx)")
        case (Inl e)
        with False Inr show ?thesis by (simp add: get_key_def Let_def)
      next
        case (Inr eye)
        with False \<open>getitem (character_timeline ?s1) ?idx = Inr emotion\<close>
        show ?thesis by (simp add: get_key_def Let_def)
      qed
    qed
  qed
  then show ?thesis by (simp add: resolve_view)
qed

lemma character_call_view:
  "eye_view (snd (character_call h r d c self t)) = eye_view self"
proof -
  let ?s1 = "snd (resolve self t)"
  let ?idx = "fst (resolve self t)"
  have v1: "eye_view ?s1 = eye_view self" by (rule resolve_view)
  show ?thesis
  proof (cases "?idx < 0")
    case True
    then have "snd (character_call h r d c self t) = ?s1"
      by (simp add: character_call_def Let_def)
    then show ?thesis using v1 by simp
  next
    case neg: False
    show ?thesis
    proof (cases "getitem (character_timeline ?s1) ?idx")
      case (Inl e)
      with neg have "snd (character_call h r d c self t) = ?s1"
        by (simp add: character_call_def Let_def)
      then show ?thesis using v1 by simp
    next
      case em: (Inr emotion)
      show ?thesis
      proof (cases "character_imgs ?s1 emotion")
        case None
        with neg em have "snd (character_call h r d c self t) = ?s1"
          by (simp add: character_call_def Let_def)
        then show ?thesis using v1 by simp
      next
        case ch: (Some character)
        define base_img where
          "base_img = (case character of OnDisk path \<Rightarrow> d path | Loaded a \<Rightarrow> a)"
        define s2 where
          "s2 = (case character of
                   OnDisk path \<Rightarrow>
                     ?s1\<lparr>character_imgs := (character_imgs ?s1)(emotion \<mapsto> Loaded base_img)\<rparr>
                 | Loaded a \<Rightarrow> ?s1)"
        have v2: "eye_view s2 = eye_view ?s1"
          by (cases character) (simp_all add: s2_def view_character_imgs)
        have step: "character_call h r d c self t =
          (case eye_imgs s2 emotion of
             None \<Rightarrow> (Inr (Some base_img), s2)
           | Some eyes \<Rightarrow>
               (case fst (get_eye_state h r s2 t ?idx) of
                  Inl e \<Rightarrow> (Inl e, s2)
                | Inr eye_number \<Rightarrow>
                    (case getitem eyes eye_number of
                       Inl e \<Rightarrow> (Inl e, s2)
                     | Inr eye \<Rightarrow>
                         (let eye_img = (case eye of OnDisk path \<Rightarrow> d path | Loaded a \<Rightarrow> a);
                              s3 = (case eye of
                                      OnDisk path \<Rightarrow>
                                        s2\<lparr>eye_imgs :=
                                             (eye_imgs s2)(emotion \<mapsto>
                                                setitem eyes eye_number (Loaded eye_img))\<rparr>
                                    | Loaded a \<Rightarrow> s2)
                          in (Inr (Some (c base_img eye_img)), s3)))))"
          using neg em ch unfolding character_call_def Let_def s2_def base_img_def by simp
        have "eye_view (snd (character_call h r d c self t)) = eye_view s2"
        proof (cases "eye_imgs s2 emotion")
          case None
          then show ?thesis by (simp add: step)
        next
          case ey: (Some eyes)
          show ?thesis
          proof (cases "fst (get_eye_state h r s2 t ?idx)")
            case (Inl e)
            with ey show ?thesis by (simp add: step)
          next
            case en: (Inr eye_number)
            show ?thesis
            proof (cases "getitem eyes eye_number")
              case (Inl e)
              with ey en show ?thesis by (simp add: step)
            next
              case (Inr eye)
              show ?thesis
              proof (cases eye)
                case (OnDisk path)
                with ey en Inr show ?thesis
                  by (simp add: step Let_def view_eye_imgs length_setitem)
              next
                case (Loaded a)
                with ey en Inr show ?thesis by (simp add: step Let_def)
              qed
            qed
          qed
        qed
        then show ?thesis using v1 v2 by simp
      qed
    qed
  qed
qed

lemma after_call_view: "eye_view (after_call h r d c self m) = eye_view self"
  by (cases m) (simp_all add: character_call_view get_key_view get_eye_state_snd)

lemma after_calls_view: "eye_view (after_calls h r d c self ms) = eye_view self"
  by (induction ms arbitrary: self) (simp_all add: after_call_view)

text \<open>
  C9. The eye state is a function of the character's configuration, the query time and
  the segment index alone: after any history of \<open>__call__\<close>, \<open>get_key\<close> and
  \<open>get_eye_state\<close> calls on the object, at any arguments, \<open>get_eye_state\<close> returns for
  the same time and index what it returns on the object as constructed, and it leaves
  the object as it found it. The random draw comes from a generator seeded inside the
  call by the digest of \<open>character_name\<close> and the time bucket; no generator state
  outlives the call.
\<close>

theorem get_eye_state_deterministic:
  "fst (get_eye_state sha224_u32 rand_state
          (after_calls sha224_u32 rand_state decode alpha_composite self history) time idx) =
   fst (get_eye_state sha224_u32 rand_state self time idx) \<and>
   snd (get_eye_state sha224_u32 rand_state self time idx) = self"
  using get_eye_state_view[OF after_calls_view] get_eye_state_snd by blast

theorem get_eye_state_deterministic_witness:
  "fst (get_eye_state (\<lambda>s. 7) (\<lambda>x. 0)
          (after_calls (\<lambda>s. 7) (\<lambda>x. 0) (\<lambda>p. p) (\<lambda>a b. a @ b)
             \<lparr>start_times = [0], end_times = [1], cache = None,
              character_name = ''zunda'',
              character_imgs = [''n'' \<mapsto> OnDisk ''n.png''],
              eye_imgs = [''n'' \<mapsto> [OnDisk ''n.eye.png'', OnDisk ''n.eye.1.png'',
                                  OnDisk ''n.eye.2.png'']],
              character_timeline = [''n''],
              blink_per_minute = 3, blink_duration = 1 / 5\<rparr>
             [Call (1 / 4), GetKey (1 / 2)])
          (1 / 4) 0) = Inr 1"
proof -
  let ?ch = "\<lparr>start_times = [0], end_times = [1], cache = None,
              character_name = ''zunda'',
              character_imgs = [''n'' \<mapsto> OnDisk ''n.png''],
              eye_imgs = [''n'' \<mapsto> [OnDisk ''n.eye.png'', OnDisk ''n.eye.1.png'',
                                  OnDisk ''n.eye.2.png'']],
              character_timeline = [''n''],
              blink_per_minute = 3, blink_duration = 1 / 5\<rparr>"
  have "fst (get_eye_state (\<lambda>s. 7) (\<lambda>x. 0) ?ch (1 / 4) 0) = Inr 1"
    by (simp add: get_eye_state_def getitem_def rand_from_string_def int_of_float_def Let_def)
  with get_eye_state_deterministic[of "\<lambda>s. 7" "\<lambda>x. 0" "\<lambda>p. p" "\<lambda>a b. a @ b" ?ch
      "[Call (1 / 4), GetKey (1 / 2)]" "1 / 4" 0]
  show ?thesis by simp
qed

end
